theory Spec2Isabelle
  imports Main "HOL-Library.Multiset"
begin

section \<open>Data model\<close>

text \<open>
  The program drives a web form through Playwright to activate SIM cards. Two files hold
  near-identical code: \<^verbatim>\<open>activate_sim.js\<close> (a batch job) and a second file that wraps
  the same job in an Express server. Definitions without a suffix embed the first file,
  definitions ending in \<open>_srv\<close> embed the second.

  The value that \<^verbatim>\<open>processIccid\<close> returns is the object
  \<^verbatim>\<open>{ iccid, status, error_detail }\<close>. The source only ever writes six string
  literals into \<^verbatim>\<open>status\<close>, which become the constructors of a datatype.
\<close>

datatype status =
  success | already_activated | processing | invalid_iccid | activation_failed | error

record result =
  iccid :: string
  status :: status
  error_detail :: string

text \<open>
  \<^verbatim>\<open>config.json\<close> is not part of the sources; the code reads the page address and
  three selectors from it, so it is a parameter of every definition that uses it.
\<close>

record selectors =
  iccid_input :: string
  next_button :: string
  activate_button :: string

record config =
  url :: string
  selectors :: selectors

section \<open>The page driver as an oracle\<close>

text \<open>
  Every \<^verbatim>\<open>await\<close> on a Playwright call either resolves or rejects with an error whose
  \<^verbatim>\<open>message\<close> the code may read. The values the calls resolve to are never inspected
  (only \<^verbatim>\<open>page.title()\<close> is, and only for a log line), so a response is one of two
  things. The calls of the logger are left out: they take no part in the control flow.
\<close>

datatype resp = Resolved | Rejected string

text \<open>
  The await points of one attempt, in the order of the source text. \<open>MouseMove\<close> and
  \<open>MouseDelay\<close> exist only in the server file. Within one attempt each of them is
  reached at most once.
\<close>

datatype step =
  NewPage | Goto | Title | MouseMove | MouseDelay | WaitInput | Fill | Scroll | ScrollDelay
  | WaitNext | ClickNext | WaitAlready | WaitIssue | WaitProcessing1
  | WaitActivate | ClickActivate | WaitSuccess | WaitProcessing2 | ClosePage

text \<open>
  The await points of one call of \<^verbatim>\<open>processIccid\<close>: the browser is launched and a
  context created once (\<^verbatim>\<open>initBrowser\<close>; the server file also installs an init
  script), then attempt number \<open>k\<close> runs its steps, and the browser is closed at the end.
\<close>

datatype site = Launch | NewContext | AddInitScript | Attempt nat step | CloseBrowser

text \<open>The Playwright call made at an await point, with the arguments the code passes.
  The random pointer position and the random delay (200 to 500 ms) are not recorded.\<close>

datatype call =
  chromium_launch | browser_newContext | context_addInitScript | context_newPage
  | page_goto string nat | page_title | mouse_move | page_waitForTimeout
  | page_waitForSelector string nat | page_fill string string | page_evaluate
  | page_click string | page_close | browser_close

text \<open>
  A driver tells how each await point of one call of \<^verbatim>\<open>processIccid\<close> responds. As
  no await point is reached twice, any sequence of responses that a call can meet is
  described by some driver. The events are the calls actually made, in order, with the
  response each one got.
\<close>

type_synonym driver = "site \<Rightarrow> resp"

type_synonym event = "site \<times> call \<times> resp"

text \<open>A run of consecutive awaits outside any inner \<^verbatim>\<open>try\<close>: the first rejection
  is thrown (\<open>Some\<close> of its message) and the calls after it are not made.\<close>

fun awaitAll :: "driver \<Rightarrow> (site \<times> call) list \<Rightarrow> string option \<times> event list" where
  "awaitAll drv [] = (None, [])"
| "awaitAll drv ((s, c) # cs) =
     (case drv s of
        Rejected m \<Rightarrow> (Some m, [(s, c, Rejected m)])
      | Resolved \<Rightarrow>
          (case awaitAll drv cs of (r, tr) \<Rightarrow> (r, (s, c, Resolved) # tr)))"

section \<open>One activation attempt\<close>

text \<open>\<^verbatim>\<open>initBrowser\<close>: launch, then a new context; the server file then adds an init
  script. None of these awaits is inside a \<^verbatim>\<open>try\<close>.\<close>

definition initBrowser :: "driver \<Rightarrow> string option \<times> event list" where
  "initBrowser drv = awaitAll drv [(Launch, chromium_launch), (NewContext, browser_newContext)]"

definition initBrowser_srv :: "driver \<Rightarrow> string option \<times> event list" where
  "initBrowser_srv drv =
     awaitAll drv [(Launch, chromium_launch), (NewContext, browser_newContext),
                   (AddInitScript, context_addInitScript)]"

text \<open>The start of the inner \<^verbatim>\<open>try\<close> block, up to the click on Next Step
  (lines 58 to 73 of \<^verbatim>\<open>activate_sim.js\<close>).\<close>

definition enterIccid :: "config \<Rightarrow> string \<Rightarrow> nat \<Rightarrow> (site \<times> call) list" where
  "enterIccid cfg i k =
     [(Attempt k Goto, page_goto (url cfg) 30000),
      (Attempt k Title, page_title),
      (Attempt k WaitInput, page_waitForSelector (''.'' @ iccid_input (selectors cfg)) 30000),
      (Attempt k Fill, page_fill (''.'' @ iccid_input (selectors cfg)) i),
      (Attempt k Scroll, page_evaluate),
      (Attempt k ScrollDelay, page_waitForTimeout),
      (Attempt k WaitNext, page_waitForSelector (next_button (selectors cfg)) 30000),
      (Attempt k ClickNext, page_click (next_button (selectors cfg)))]"

text \<open>The same in the server file, which moves the pointer and pauses after loading the
  page (lines 88 to 107 there).\<close>

definition enterIccid_srv :: "config \<Rightarrow> string \<Rightarrow> nat \<Rightarrow> (site \<times> call) list" where
  "enterIccid_srv cfg i k =
     [(Attempt k Goto, page_goto (url cfg) 30000),
      (Attempt k Title, page_title),
      (Attempt k MouseMove, mouse_move),
      (Attempt k MouseDelay, page_waitForTimeout),
      (Attempt k WaitInput, page_waitForSelector (''.'' @ iccid_input (selectors cfg)) 30000),
      (Attempt k Fill, page_fill (''.'' @ iccid_input (selectors cfg)) i),
      (Attempt k Scroll, page_evaluate),
      (Attempt k ScrollDelay, page_waitForTimeout),
      (Attempt k WaitNext, page_waitForSelector (next_button (selectors cfg)) 30000),
      (Attempt k ClickNext, page_click (next_button (selectors cfg)))]"

text \<open>
  The response check after Next Step (lines 76 to 97): three nested \<^verbatim>\<open>try\<close> blocks,
  each waiting up to 5000 ms for one text. A wait that resolves assigns the result and
  returns it (\<open>Some\<close>); a wait that rejects, for whatever reason, falls into the next
  \<^verbatim>\<open>catch\<close>. After the third rejection control goes on to Activate Now (\<open>None\<close>).
\<close>

definition checkResponse :: "driver \<Rightarrow> nat \<Rightarrow> string \<Rightarrow> result option \<times> event list" where
  "checkResponse drv k i =
     (let e1 = (Attempt k WaitAlready,
                page_waitForSelector ''text=Your SIM card has been successfully activated'' 5000,
                drv (Attempt k WaitAlready));
          e2 = (Attempt k WaitIssue,
                page_waitForSelector ''text=The system is currently experiencing some issues'' 5000,
                drv (Attempt k WaitIssue));
          e3 = (Attempt k WaitProcessing1,
                page_waitForSelector ''text=Your activation order is being processed'' 5000,
                drv (Attempt k WaitProcessing1))
      in case drv (Attempt k WaitAlready) of
           Resolved \<Rightarrow>
             (Some \<lparr>iccid = i, status = already_activated,
                    error_detail = ''Your SIM card has been successfully activated''\<rparr>, [e1])
         | Rejected _ \<Rightarrow>
             (case drv (Attempt k WaitIssue) of
                Resolved \<Rightarrow>
                  (Some \<lparr>iccid = i, status = invalid_iccid,
                         error_detail = ''The system is currently experiencing some issues''\<rparr>,
                   [e1, e2])
              | Rejected _ \<Rightarrow>
                  (case drv (Attempt k WaitProcessing1) of
                     Resolved \<Rightarrow>
                       (Some \<lparr>iccid = i, status = processing,
                              error_detail =
                                ''Your activation order is being processed, please try again later''\<rparr>,
                        [e1, e2, e3])
                   | Rejected _ \<Rightarrow> (None, [e1, e2, e3]))))"

text \<open>The click on Activate Now (lines 100 and 101).\<close>

definition activateNow :: "config \<Rightarrow> nat \<Rightarrow> (site \<times> call) list" where
  "activateNow cfg k =
     [(Attempt k WaitActivate, page_waitForSelector (activate_button (selectors cfg)) 30000),
      (Attempt k ClickActivate, page_click (activate_button (selectors cfg)))]"

text \<open>The final check (lines 105 to 121): two nested waits, and a result in every case.\<close>

definition checkFinal :: "driver \<Rightarrow> nat \<Rightarrow> string \<Rightarrow> result \<times> event list" where
  "checkFinal drv k i =
     (let e1 = (Attempt k WaitSuccess,
                page_waitForSelector ''text=Your SIM card has been successfully activated'' 5000,
                drv (Attempt k WaitSuccess));
          e2 = (Attempt k WaitProcessing2,
                page_waitForSelector ''text=Your activation order is being processed'' 5000,
                drv (Attempt k WaitProcessing2))
      in case drv (Attempt k WaitSuccess) of
           Resolved \<Rightarrow>
             (\<lparr>iccid = i, status = success,
               error_detail = ''Your SIM card has been successfully activated''\<rparr>, [e1])
         | Rejected _ \<Rightarrow>
             (case drv (Attempt k WaitProcessing2) of
                Resolved \<Rightarrow>
                  (\<lparr>iccid = i, status = processing,
                    error_detail =
                      ''Your activation order is being processed, please try again later''\<rparr>,
                   [e1, e2])
              | Rejected _ \<Rightarrow>
                  (\<lparr>iccid = i, status = activation_failed,
                    error_detail = ''No expected response received''\<rparr>, [e1, e2])))"

text \<open>
  The inner \<^verbatim>\<open>try\<close> block as a whole, given the awaits it starts with: \<open>Inr r\<close> when
  it reaches a \<^verbatim>\<open>return result\<close>, \<open>Inl m\<close> when a rejection with message \<open>m\<close>
  escapes it. After the click on Next Step the two files are the same text.
\<close>

definition tryBlock ::
  "(site \<times> call) list \<Rightarrow> config \<Rightarrow> driver \<Rightarrow> nat \<Rightarrow> string \<Rightarrow> (string + result) \<times> event list" where
  "tryBlock entry cfg drv k i =
     (case awaitAll drv entry of
        (Some m, t0) \<Rightarrow> (Inl m, t0)
      | (None, t0) \<Rightarrow>
          (case checkResponse drv k i of
             (Some r, t1) \<Rightarrow> (Inr r, t0 @ t1)
           | (None, t1) \<Rightarrow>
               (case awaitAll drv (activateNow cfg k) of
                  (Some m, t2) \<Rightarrow> (Inl m, t0 @ t1 @ t2)
                | (None, t2) \<Rightarrow>
                    (case checkFinal drv k i of (r, t3) \<Rightarrow> (Inr r, t0 @ t1 @ t2 @ t3)))))"

definition attempt :: "config \<Rightarrow> driver \<Rightarrow> nat \<Rightarrow> string \<Rightarrow> (string + result) \<times> event list" where
  "attempt cfg drv k i = tryBlock (enterIccid cfg i k) cfg drv k i"

definition attempt_srv :: "config \<Rightarrow> driver \<Rightarrow> nat \<Rightarrow> string \<Rightarrow> (string + result) \<times> event list" where
  "attempt_srv cfg drv k i = tryBlock (enterIccid_srv cfg i k) cfg drv k i"

section \<open>The retry loop and \<^verbatim>\<open>processIccid\<close>\<close>

text \<open>
  How one pass through the body of the \<^verbatim>\<open>for\<close> loop ends: \<open>Continue r\<close> goes on to
  the next value of \<^verbatim>\<open>attempt\<close> with the variable \<^verbatim>\<open>result\<close> holding \<open>r\<close>;
  \<open>Finish r\<close> leaves the loop, and \<open>r\<close> is what the function will return once the
  browser is closed.
\<close>

datatype completion = Continue result | Finish result

text \<open>
  One pass (lines 53 to 127), with \<open>att\<close> the inner \<^verbatim>\<open>try\<close> block and \<open>res\<close> the value
  of \<^verbatim>\<open>result\<close> on entry.
  \<^item> \<^verbatim>\<open>context.newPage()\<close> is outside the inner \<^verbatim>\<open>try\<close>: its rejection is caught by
    the outer \<^verbatim>\<open>catch\<close>, which writes the message into \<^verbatim>\<open>result.error_detail\<close>
    and ends the loop.
  \<^item> A \<^verbatim>\<open>return result\<close> runs \<^verbatim>\<open>finally { await page.close() }\<close> first. If
    that close rejects, the rejection replaces the pending return and reaches the outer
    \<^verbatim>\<open>catch\<close>, where \<^verbatim>\<open>result\<close> is by then the classified object.
  \<^item> A rejection inside the block is caught by the inner \<^verbatim>\<open>catch\<close>, which writes its
    message into \<^verbatim>\<open>result.error_detail\<close>; then the page is closed, and a rejection
    of that close again reaches the outer \<^verbatim>\<open>catch\<close>.
\<close>

definition iteration ::
  "(driver \<Rightarrow> nat \<Rightarrow> string \<Rightarrow> (string + result) \<times> event list) \<Rightarrow>
   driver \<Rightarrow> string \<Rightarrow> nat \<Rightarrow> result \<Rightarrow> completion \<times> event list" where
  "iteration att drv i k res =
     (let opened = (Attempt k NewPage, context_newPage, drv (Attempt k NewPage));
          closed = (Attempt k ClosePage, page_close, drv (Attempt k ClosePage))
      in case drv (Attempt k NewPage) of
           Rejected m \<Rightarrow> (Finish (res\<lparr>error_detail := m\<rparr>), [opened])
         | Resolved \<Rightarrow>
             (case att drv k i of
                (Inr r, t) \<Rightarrow>
                  (case drv (Attempt k ClosePage) of
                     Resolved \<Rightarrow> (Finish r, opened # t @ [closed])
                   | Rejected m \<Rightarrow> (Finish (r\<lparr>error_detail := m\<rparr>), opened # t @ [closed]))
              | (Inl e, t) \<Rightarrow>
                  (case drv (Attempt k ClosePage) of
                     Resolved \<Rightarrow> (Continue (res\<lparr>error_detail := e\<rparr>), opened # t @ [closed])
                   | Rejected m \<Rightarrow>
                       (Finish (res\<lparr>error_detail := e, error_detail := m\<rparr>),
                        opened # t @ [closed]))))"

text \<open>\<^verbatim>\<open>for (let attempt = 0; attempt < maxRetries; attempt++)\<close>, with \<open>n\<close> the number
  of passes still allowed and \<open>k\<close> the value of \<^verbatim>\<open>attempt\<close>.\<close>

fun retryLoop ::
  "(driver \<Rightarrow> nat \<Rightarrow> string \<Rightarrow> (string + result) \<times> event list) \<Rightarrow>
   driver \<Rightarrow> string \<Rightarrow> nat \<Rightarrow> nat \<Rightarrow> result \<Rightarrow> result \<times> event list" where
  "retryLoop att drv i 0 k res = (res, [])"
| "retryLoop att drv i (Suc n) k res =
     (case iteration att drv i k res of
        (Finish r, t) \<Rightarrow> (r, t)
      | (Continue r, t) \<Rightarrow>
          (case retryLoop att drv i n (Suc k) r of (r', t') \<Rightarrow> (r', t @ t')))"

text \<open>
  Everything of \<^verbatim>\<open>processIccid\<close> after \<^verbatim>\<open>initBrowser\<close> (lines 49 to 135): the loop
  starts from \<^verbatim>\<open>{ iccid, status: 'error', error_detail: '' }\<close>, and the outer
  \<^verbatim>\<open>finally\<close> closes the browser. If that close rejects, the promise of
  \<^verbatim>\<open>processIccid\<close> rejects (\<open>Inl\<close>) whatever was about to be returned.
\<close>

definition runBody ::
  "(driver \<Rightarrow> nat \<Rightarrow> string \<Rightarrow> (string + result) \<times> event list) \<Rightarrow>
   driver \<Rightarrow> string \<Rightarrow> nat \<Rightarrow> (string + result) \<times> event list" where
  "runBody att drv i maxRetries =
     (case retryLoop att drv i maxRetries 0 \<lparr>iccid = i, status = error, error_detail = []\<rparr> of
        (r, t) \<Rightarrow>
          (case drv CloseBrowser of
             Resolved \<Rightarrow> (Inr r, t @ [(CloseBrowser, browser_close, Resolved)])
           | Rejected m \<Rightarrow> (Inl m, t @ [(CloseBrowser, browser_close, Rejected m)])))"

text \<open>\<^verbatim>\<open>initBrowser\<close> is awaited before the outer \<^verbatim>\<open>try\<close> (line 48): when it
  rejects, so does \<^verbatim>\<open>processIccid\<close>, and no result object exists.\<close>

definition processIccid ::
  "config \<Rightarrow> driver \<Rightarrow> string \<Rightarrow> nat \<Rightarrow> (string + result) \<times> event list" where
  "processIccid cfg drv i maxRetries =
     (case initBrowser drv of
        (Some m, t) \<Rightarrow> (Inl m, t)
      | (None, t) \<Rightarrow>
          (case runBody (attempt cfg) drv i maxRetries of (x, t') \<Rightarrow> (x, t @ t')))"

definition processIccid_srv ::
  "config \<Rightarrow> driver \<Rightarrow> string \<Rightarrow> nat \<Rightarrow> (string + result) \<times> event list" where
  "processIccid_srv cfg drv i maxRetries =
     (case initBrowser_srv drv of
        (Some m, t) \<Rightarrow> (Inl m, t)
      | (None, t) \<Rightarrow>
          (case runBody (attempt_srv cfg) drv i maxRetries of (x, t') \<Rightarrow> (x, t @ t')))"

section \<open>The scheduler in \<^verbatim>\<open>main\<close>\<close>

text \<open>
  \<^verbatim>\<open>loadIccids\<close> takes the column \<^verbatim>\<open>iccid\<close> of the parsed file and keeps a value
  where \<^verbatim>\<open>self.indexOf(value) === index\<close>, that is at its first place. \<open>indexOf\<close>
  is the array method: the first index of the value, or -1.
\<close>

fun indexOf :: "'a list \<Rightarrow> 'a \<Rightarrow> int" where
  "indexOf [] v = - 1"
| "indexOf (x # xs) v =
     (if x = v then 0 else (if indexOf xs v < 0 then - 1 else indexOf xs v + 1))"

definition loadIccids :: "string list \<Rightarrow> string list" where
  "loadIccids rows =
     map fst (filter (\<lambda>(v, idx). indexOf rows v = int idx) (zip rows [0..<length rows]))"

text \<open>
  \<^verbatim>\<open>main\<close> builds \<^verbatim>\<open>pool\<close>, an array of \<^verbatim>\<open>maxWorkers\<close> resolved promises, and for
  each identifier takes the first promise off the array and pushes
  \<^verbatim>\<open>worker.then(task)\<close> at the end. A promise of the pool is therefore a chain of tasks,
  written here as the list of identifiers it will process in order. With an empty pool
  \<^verbatim>\<open>pool.shift()\<close> is \<^verbatim>\<open>undefined\<close> and \<^verbatim>\<open>worker.then\<close> throws a TypeError.
\<close>

fun addTask :: "string list list \<Rightarrow> string \<Rightarrow> string + string list list" where
  "addTask [] i = Inl ''Cannot read properties of undefined (reading 'then')''"
| "addTask (worker # pool) i = Inr (pool @ [worker @ [i]])"

fun schedule :: "string list list \<Rightarrow> string list \<Rightarrow> string + string list list" where
  "schedule pool [] = Inr pool"
| "schedule pool (i # rest) =
     (case addTask pool i of Inl m \<Rightarrow> Inl m | Inr pool' \<Rightarrow> schedule pool' rest)"

text \<open>
  What a chain is doing. \<open>Waiting q\<close>: no task of the chain is running and the tasks for
  \<open>q\<close> are still to come. \<open>Running i q\<close>: \<^verbatim>\<open>processIccid(i)\<close> is past
  \<^verbatim>\<open>initBrowser\<close>, its browser is open. \<open>Broken b\<close>: a task of the chain rejected;
  \<^verbatim>\<open>then\<close> does not call its callback on a rejected promise, so no later task of the
  chain starts. \<open>b\<close> tells whether the rejected task left a launched browser behind
  (nothing closes the browser when \<^verbatim>\<open>newContext\<close> rejects after a launch, and a
  rejected \<^verbatim>\<open>browser.close()\<close> cannot be taken to have closed it).
\<close>

datatype slot = Waiting "string list" | Running string "string list" | Broken bool

text \<open>
  The state of a run: the chains, the array \<^verbatim>\<open>results\<close>, and whether \<^verbatim>\<open>main\<close> has
  rejected (with which message). \<^verbatim>\<open>Promise.all(pool)\<close> rejects as soon as one chain
  does, \<^verbatim>\<open>main\<close> rejects with it, and the \<^verbatim>\<open>catch\<close> handlers on the calls of
  \<^verbatim>\<open>main\<close> (the last lines of both files) end the process with
  \<^verbatim>\<open>process.exit(1)\<close>: after that no chain takes a step.
\<close>

record run =
  slots :: "slot list"
  results :: "result list"
  crashed :: "string option"

definition start :: "nat \<Rightarrow> string list \<Rightarrow> run" where
  "start maxWorkers iccids =
     (case schedule (replicate maxWorkers []) iccids of
        Inl m \<Rightarrow> \<lparr>slots = [], results = [], crashed = Some m\<rparr>
      | Inr pool \<Rightarrow> \<lparr>slots = map Waiting pool, results = [], crashed = None\<rparr>)"

text \<open>
  The event loop interleaves the chains. One \<open>tick\<close> lets chain \<open>j\<close> take its next step:
  a waiting chain starts its next task, which awaits \<open>ini\<close> (\<^verbatim>\<open>initBrowser\<close>); a
  running task finishes with \<open>body\<close> (the rest of \<^verbatim>\<open>processIccid\<close>) and, if that
  returns, pushes the result. \<open>w i\<close> is the driver that the call for identifier \<open>i\<close>
  meets (\<^verbatim>\<open>loadIccids\<close> removes duplicates, so an identifier is processed by one call).
\<close>

definition tick ::
  "(driver \<Rightarrow> string option \<times> event list) \<Rightarrow>
   (driver \<Rightarrow> string \<Rightarrow> (string + result) \<times> event list) \<Rightarrow>
   (string \<Rightarrow> driver) \<Rightarrow> nat \<Rightarrow> run \<Rightarrow> run" where
  "tick ini body w j s =
     (if crashed s \<noteq> None \<or> length (slots s) \<le> j then s
      else case slots s ! j of
             Waiting [] \<Rightarrow> s
           | Waiting (i # q) \<Rightarrow>
               (case fst (ini (w i)) of
                  None \<Rightarrow> s\<lparr>slots := (slots s)[j := Running i q]\<rparr>
                | Some m \<Rightarrow>
                    s\<lparr>slots := (slots s)[j := Broken (w i Launch = Resolved)],
                      crashed := Some m\<rparr>)
           | Running i q \<Rightarrow>
               (case fst (body (w i) i) of
                  Inr r \<Rightarrow> s\<lparr>slots := (slots s)[j := Waiting q], results := results s @ [r]\<rparr>
                | Inl m \<Rightarrow> s\<lparr>slots := (slots s)[j := Broken True], crashed := Some m\<rparr>)
           | Broken b \<Rightarrow> s)"

text \<open>A run of the event loop: the chains step in the order \<open>sched\<close> names them.\<close>

definition exec ::
  "(driver \<Rightarrow> string option \<times> event list) \<Rightarrow>
   (driver \<Rightarrow> string \<Rightarrow> (string + result) \<times> event list) \<Rightarrow>
   (string \<Rightarrow> driver) \<Rightarrow> nat list \<Rightarrow> run \<Rightarrow> run" where
  "exec ini body w sched s = foldl (\<lambda>s' j. tick ini body w j s') s sched"

text \<open>\<^verbatim>\<open>main\<close> calls \<^verbatim>\<open>processIccid(iccid)\<close>, so \<^verbatim>\<open>maxRetries\<close> is its default 2.\<close>

definition main ::
  "config \<Rightarrow> (string \<Rightarrow> driver) \<Rightarrow> nat \<Rightarrow> string list \<Rightarrow> nat list \<Rightarrow> run" where
  "main cfg w maxWorkers iccids sched =
     exec initBrowser (\<lambda>drv i. runBody (attempt cfg) drv i 2) w sched (start maxWorkers iccids)"


text \<open>\<^verbatim>\<open>await Promise.all(pool)\<close> resolves when every chain has run all its tasks.\<close>

fun idle :: "slot \<Rightarrow> bool" where
  "idle (Waiting q) = (q = [])"
| "idle (Running i q) = False"
| "idle (Broken b) = False"


text \<open>The identifiers a chain has not finished: the running one and those to come.\<close>

fun unfinished :: "slot \<Rightarrow> string list" where
  "unfinished (Waiting q) = q"
| "unfinished (Running i q) = i # q"
| "unfinished (Broken b) = []"



section \<open>The browsers open at an instant\<close>

text \<open>
  A browser is open from the moment \<^verbatim>\<open>chromium.launch()\<close> resolves until
  \<^verbatim>\<open>browser.close()\<close> resolves (a close that rejects is not taken to have closed it).
  \<open>browsersOpen tr\<close> is the number of browsers open after the calls of \<open>tr\<close>; it is
  an integer, so that a close without a launch would show.
\<close>

definition browserDelta :: "event \<Rightarrow> int" where
  "browserDelta e =
     (if fst e = Launch \<and> snd (snd e) = Resolved then 1
      else if fst e = CloseBrowser \<and> snd (snd e) = Resolved then - 1
      else 0)"

definition browsersOpen :: "event list \<Rightarrow> int" where
  "browsersOpen tr = sum_list (map browserDelta tr)"

text \<open>Starting with \<open>b\<close> browsers open, the calls of a trace never leave fewer than
  none or more than one open.\<close>

fun atMostOneOpen :: "int \<Rightarrow> event list \<Rightarrow> bool" where
  "atMostOneOpen b [] = (0 \<le> b \<and> b \<le> 1)"
| "atMostOneOpen b (e # es) = (0 \<le> b \<and> b \<le> 1 \<and> atMostOneOpen (b + browserDelta e) es)"

text \<open>
  The calls that one chain of the pool makes, in order, when \<open>proc\<close> is
  \<^verbatim>\<open>processIccid\<close>: the task for the first identifier runs its calls; if it returns,
  \<^verbatim>\<open>then\<close> starts the task for the next identifier, and if it rejects no later task
  of the chain starts.
\<close>

fun chainEvents ::
  "(driver \<Rightarrow> string \<Rightarrow> (string + result) \<times> event list) \<Rightarrow>
   (string \<Rightarrow> driver) \<Rightarrow> string list \<Rightarrow> event list" where
  "chainEvents proc w [] = []"
| "chainEvents proc w (i # q) =
     (case proc (w i) i of
        (Inr r, t) \<Rightarrow> t @ chainEvents proc w q
      | (Inl m, t) \<Rightarrow> t)"

text \<open>The chains that \<^verbatim>\<open>main\<close> builds: the queues of the state it starts from (none
  when building the pool throws).\<close>

definition chains :: "nat \<Rightarrow> string list \<Rightarrow> string list list" where
  "chains maxWorkers iccids = map unfinished (slots (start maxWorkers iccids))"

text \<open>
  The chains run concurrently, and the event loop may interleave their calls in any
  order. At any instant of a run each chain has made some first part of its calls; \<open>made\<close>
  gives, chain by chain, how many calls that is (a chain that \<open>made\<close> does not list has
  made none, and a chain cannot make more calls than it has). The browsers open at that
  instant are those the chains have open together. Ending the process when \<^verbatim>\<open>main\<close>
  rejects only removes instants.
\<close>

definition sessionsOpenAt ::
  "(driver \<Rightarrow> string \<Rightarrow> (string + result) \<times> event list) \<Rightarrow>
   (string \<Rightarrow> driver) \<Rightarrow> nat \<Rightarrow> string list \<Rightarrow> nat list \<Rightarrow> int" where
  "sessionsOpenAt proc w maxWorkers iccids made =
     sum_list (map (\<lambda>(q, n). browsersOpen (take n (chainEvents proc w q)))
                   (zip (chains maxWorkers iccids) made))"

definition openSessions ::
  "config \<Rightarrow> (string \<Rightarrow> driver) \<Rightarrow> nat \<Rightarrow> string list \<Rightarrow> nat list \<Rightarrow> int" where
  "openSessions cfg w maxWorkers iccids made =
     sessionsOpenAt (\<lambda>drv i. processIccid cfg drv i 2) w maxWorkers iccids made"

definition openSessions_srv ::
  "config \<Rightarrow> (string \<Rightarrow> driver) \<Rightarrow> nat \<Rightarrow> string list \<Rightarrow> nat list \<Rightarrow> int" where
  "openSessions_srv cfg w maxWorkers iccids made =
     sessionsOpenAt (\<lambda>drv i. processIccid_srv cfg drv i 2) w maxWorkers iccids made"

text \<open>
  The same count along a run of \<^verbatim>\<open>main\<close>. \<open>tickCalls ini body w j s\<close> are the calls
  that the step \<open>tick ini body w j s\<close> makes: a chain that starts a task makes the calls of
  \<^verbatim>\<open>initBrowser\<close>, a running task the calls of the rest of \<^verbatim>\<open>processIccid\<close>, and
  no call is made where \<open>tick\<close> leaves the state as it is. \<open>callsMade ini body w sched s c\<close>
  are the calls chain \<open>c\<close> has made when the steps \<open>sched\<close> have been taken from \<open>s\<close>.
\<close>

definition tickCalls ::
  "(driver \<Rightarrow> string option \<times> event list) \<Rightarrow>
   (driver \<Rightarrow> string \<Rightarrow> (string + result) \<times> event list) \<Rightarrow>
   (string \<Rightarrow> driver) \<Rightarrow> nat \<Rightarrow> run \<Rightarrow> event list" where
  "tickCalls ini body w j s =
     (if crashed s \<noteq> None \<or> length (slots s) \<le> j then []
      else case slots s ! j of
             Waiting [] \<Rightarrow> []
           | Waiting (i # q) \<Rightarrow> snd (ini (w i))
           | Running i q \<Rightarrow> snd (body (w i) i)
           | Broken b \<Rightarrow> [])"

fun callsMade ::
  "(driver \<Rightarrow> string option \<times> event list) \<Rightarrow>
   (driver \<Rightarrow> string \<Rightarrow> (string + result) \<times> event list) \<Rightarrow>
   (string \<Rightarrow> driver) \<Rightarrow> nat list \<Rightarrow> run \<Rightarrow> nat \<Rightarrow> event list" where
  "callsMade ini body w [] s c = []"
| "callsMade ini body w (j # sched) s c =
     (if j = c then tickCalls ini body w j s else []) @
     callsMade ini body w sched (tick ini body w j s) c"

text \<open>The browsers open when the steps \<open>sched\<close> have been taken from \<open>s\<close>: those that
  the calls made by the chains have launched and not closed.\<close>

definition sessionsOpenAfter ::
  "(driver \<Rightarrow> string option \<times> event list) \<Rightarrow>
   (driver \<Rightarrow> string \<Rightarrow> (string + result) \<times> event list) \<Rightarrow>
   (string \<Rightarrow> driver) \<Rightarrow> nat list \<Rightarrow> run \<Rightarrow> int" where
  "sessionsOpenAfter ini body w sched s =
     sum_list (map (\<lambda>c. browsersOpen (callsMade ini body w sched s c)) [0..<length (slots s)])"

text \<open>The browsers open in the state \<open>main cfg w maxWorkers iccids sched\<close>, and the same
  for the server file.\<close>

definition openSessions_main ::
  "config \<Rightarrow> (string \<Rightarrow> driver) \<Rightarrow> nat \<Rightarrow> string list \<Rightarrow> nat list \<Rightarrow> int" where
  "openSessions_main cfg w maxWorkers iccids sched =
     sessionsOpenAfter initBrowser (\<lambda>drv i. runBody (attempt cfg) drv i 2) w sched
       (start maxWorkers iccids)"

definition openSessions_main_srv ::
  "config \<Rightarrow> (string \<Rightarrow> driver) \<Rightarrow> nat \<Rightarrow> string list \<Rightarrow> nat list \<Rightarrow> int" where
  "openSessions_main_srv cfg w maxWorkers iccids sched =
     sessionsOpenAfter initBrowser_srv (\<lambda>drv i. runBody (attempt_srv cfg) drv i 2) w sched
       (start maxWorkers iccids)"

text \<open>The calls that a chain in the state \<open>sl\<close> has still to make, when \<open>proc\<close> is
  \<^verbatim>\<open>processIccid\<close> and \<open>body\<close> the part of it after \<^verbatim>\<open>initBrowser\<close>.\<close>

fun toCome ::
  "(driver \<Rightarrow> string \<Rightarrow> (string + result) \<times> event list) \<Rightarrow>
   (driver \<Rightarrow> string \<Rightarrow> (string + result) \<times> event list) \<Rightarrow>
   (string \<Rightarrow> driver) \<Rightarrow> slot \<Rightarrow> event list" where
  "toCome proc body w (Waiting q) = chainEvents proc w q"
| "toCome proc body w (Running i q) =
     (case body (w i) i of
        (Inr r, t) \<Rightarrow> t @ chainEvents proc w q
      | (Inl m, t) \<Rightarrow> t)"
| "toCome proc body w (Broken b) = []"

section \<open>Reading a trace of calls\<close>

text \<open>
  The discipline that \<^verbatim>\<open>processIccid\<close> follows with its pages, as a check of the
  calls made after \<^verbatim>\<open>initBrowser\<close>. \<open>pg\<close> is the page that is open, if any; pages
  are named by the attempt that opened them, and \<open>n\<close> is the least number a new page may
  carry, so that no page is opened twice. A page is opened only while none is open; every
  other call of attempt \<open>k\<close> goes to the open page \<open>k\<close>; \<^verbatim>\<open>page.close()\<close> is called
  on the open page; \<^verbatim>\<open>browser.close()\<close> comes with no page open and is the last call.
  A trace that ends without \<^verbatim>\<open>browser.close()\<close> is refused.
\<close>

fun wellScoped :: "nat option \<Rightarrow> nat \<Rightarrow> event list \<Rightarrow> bool" where
  "wellScoped pg n [] = False"
| "wellScoped pg n ((s, c, r) # es) =
     (case s of
        CloseBrowser \<Rightarrow> pg = None \<and> c = browser_close \<and> es = []
      | Attempt k st \<Rightarrow>
          (case st of
             NewPage \<Rightarrow>
               pg = None \<and> n \<le> k \<and> c = context_newPage \<and>
               wellScoped (if r = Resolved then Some k else None) (Suc k) es
           | ClosePage \<Rightarrow> pg = Some k \<and> c = page_close \<and> wellScoped None n es
           | _ \<Rightarrow> pg = Some k \<and> wellScoped pg n es)
      | _ \<Rightarrow> False)"

text \<open>A call of attempt \<open>k\<close> on its page, other than opening or closing it.\<close>

definition pageCall :: "nat \<Rightarrow> event \<Rightarrow> bool" where
  "pageCall k e =
     (case fst e of Attempt j st \<Rightarrow> j = k \<and> st \<noteq> NewPage \<and> st \<noteq> ClosePage | _ \<Rightarrow> False)"

text \<open>The browser contexts created (each holds its own cookies and storage) and the
  pages opened in a trace.\<close>

definition contextsCreated :: "event list \<Rightarrow> nat" where
  "contextsCreated tr =
     length (filter (\<lambda>e. fst e = NewContext \<and> snd (snd e) = Resolved) tr)"

definition pagesOpened :: "event list \<Rightarrow> nat" where
  "pagesOpened tr =
     length (filter (\<lambda>e. (case fst e of Attempt k NewPage \<Rightarrow> True | _ \<Rightarrow> False)
                          \<and> snd (snd e) = Resolved) tr)"

text \<open>The steps a chain still has to take: two for each task to come (start it, finish
  it), one for a running task.\<close>

fun stepsLeft :: "slot \<Rightarrow> nat" where
  "stepsLeft (Waiting q) = 2 * length q"
| "stepsLeft (Running i q) = 2 * length q + 1"
| "stepsLeft (Broken b) = 0"

definition pendingWork :: "run \<Rightarrow> nat" where
  "pendingWork s = sum_list (map stepsLeft (slots s))"

section \<open>Example inputs\<close>

text \<open>A configuration and some drivers, used to run the definitions on concrete inputs.
  \<open>rejecting steps m\<close> rejects, in every attempt, the awaits named in \<open>steps\<close> with
  message \<open>m\<close> and resolves every other call.\<close>

definition exampleConfig :: config where
  "exampleConfig =
     \<lparr>url = ''https://sim.example/activate'',
      selectors = \<lparr>iccid_input = ''iccid-input'', next_button = ''#next'',
                   activate_button = ''#activate''\<rparr>\<rparr>"

definition rejecting :: "step list \<Rightarrow> string \<Rightarrow> driver" where
  "rejecting steps m s =
     (case s of Attempt k st \<Rightarrow> (if st \<in> set steps then Rejected m else Resolved)
              | _ \<Rightarrow> Resolved)"

text \<open>\<open>scripted xs\<close> rejects the awaits listed in \<open>xs\<close>, each with the message given
  for it, and resolves every other call.\<close>

definition scripted :: "(site \<times> string) list \<Rightarrow> driver" where
  "scripted xs s = (case map_of xs s of None \<Rightarrow> Resolved | Some m \<Rightarrow> Rejected m)"

text \<open>Four identifiers, and a world in which the browser cannot be launched for one
  identifier \<open>a\<close> while every other call resolves.\<close>

definition exampleIccids :: "string list" where
  "exampleIccids =
     [''8985200000000000001'', ''8985200000000000002'', ''8985200000000000003'',
      ''8985200000000000004'']"

definition launchFailsFor :: "string \<Rightarrow> string \<Rightarrow> driver" where
  "launchFailsFor a i =
     (if i = a then scripted [(Launch, ''browserType.launch: Failed to launch chromium'')]
      else scripted [])"

section \<open>The identifiers that are scheduled\<close>

text \<open>No identifier is scheduled twice, so each call of \<^verbatim>\<open>processIccid\<close> in a run has
  an identifier of its own.\<close>

lemma loadIccids_distinct: "distinct (loadIccids rows)"
proof -
  let ?ps = "zip rows [0..<length rows]"
  let ?kept = "filter (\<lambda>(v, idx). indexOf rows v = int idx) ?ps"
  have "distinct ?ps"
    by (rule distinct_zipI2) simp
  then have d: "distinct ?kept" by simp
  have "inj_on fst (set ?kept)"
    by (rule inj_onI) auto
  with d show ?thesis
    by (simp add: loadIccids_def distinct_map)
qed

lemma loadIccids_example:
  "loadIccids [''A'', ''B'', ''A'', ''C''] = [''A'', ''B'', ''C'']"
  by (simp add: loadIccids_def upt_rec)

section \<open>Facts about sequences of awaits\<close>

lemma awaitAll_None_iff:
  "fst (awaitAll drv cs) = None \<longleftrightarrow> (\<forall>x \<in> set cs. drv (fst x) = Resolved)"
  by (induction cs) (auto split: resp.splits prod.splits)

lemma awaitAll_events:
  "(s, c, r) \<in> set (snd (awaitAll drv cs)) \<Longrightarrow> (s, c) \<in> set cs \<and> r = drv s"
  by (induction cs) (auto split: resp.splits prod.splits)

lemma awaitAll_sites: "fst ` set (snd (awaitAll drv cs)) \<subseteq> fst ` set cs"
  using awaitAll_events by force

lemma entry_sites:
  "fst ` set (enterIccid cfg i k) =
     {Attempt k Goto, Attempt k Title, Attempt k WaitInput, Attempt k Fill, Attempt k Scroll,
      Attempt k ScrollDelay, Attempt k WaitNext, Attempt k ClickNext}"
  by (simp add: enterIccid_def)

lemma entry_srv_sites:
  "fst ` set (enterIccid_srv cfg i k) =
     {Attempt k Goto, Attempt k Title, Attempt k MouseMove, Attempt k MouseDelay,
      Attempt k WaitInput, Attempt k Fill, Attempt k Scroll,
      Attempt k ScrollDelay, Attempt k WaitNext, Attempt k ClickNext}"
  by (simp add: enterIccid_srv_def)

lemma no_click_in_entry:
  "Attempt k ClickActivate \<notin> fst ` set (snd (awaitAll drv (enterIccid cfg i k')))"
  using awaitAll_sites[of drv "enterIccid cfg i k'"] by (auto simp: entry_sites)

section \<open>The first response check\<close>

text \<open>
  Claim C3. Take one attempt that gets as far as the click on Next Step. If the wait for
  the already-activated text resolves, the attempt returns the result with status
  \<open>already_activated\<close>, and the calls it has made end with that wait: Activate Now is
  never clicked. The three texts are waited for one after the other, in the order
  already activated, system issues, being processed, each by a call of its own with a
  timeout of 5000 ms, and a later text is only looked for after the wait for the earlier
  one has rejected; the first wait that resolves decides the result.
\<close>

theorem already_activated_first_of_three:
  assumes "fst (awaitAll drv (enterIccid cfg i k)) = None"
  shows "(drv (Attempt k WaitAlready) = Resolved \<longrightarrow>
            attempt cfg drv k i =
              (Inr \<lparr>iccid = i, status = already_activated,
                    error_detail = ''Your SIM card has been successfully activated''\<rparr>,
               snd (awaitAll drv (enterIccid cfg i k)) @
               [(Attempt k WaitAlready,
                 page_waitForSelector ''text=Your SIM card has been successfully activated'' 5000,
                 Resolved)])
            \<and> Attempt k ClickActivate \<notin> fst ` set (snd (attempt cfg drv k i)))
       \<and> (\<forall>m1. drv (Attempt k WaitAlready) = Rejected m1 \<and> drv (Attempt k WaitIssue) = Resolved \<longrightarrow>
            attempt cfg drv k i =
              (Inr \<lparr>iccid = i, status = invalid_iccid,
                    error_detail = ''The system is currently experiencing some issues''\<rparr>,
               snd (awaitAll drv (enterIccid cfg i k)) @
               [(Attempt k WaitAlready,
                 page_waitForSelector ''text=Your SIM card has been successfully activated'' 5000,
                 Rejected m1),
                (Attempt k WaitIssue,
                 page_waitForSelector ''text=The system is currently experiencing some issues'' 5000,
                 Resolved)]))
       \<and> (\<forall>m1 m2. drv (Attempt k WaitAlready) = Rejected m1 \<and> drv (Attempt k WaitIssue) = Rejected m2
              \<and> drv (Attempt k WaitProcessing1) = Resolved \<longrightarrow>
            attempt cfg drv k i =
              (Inr \<lparr>iccid = i, status = processing,
                    error_detail =
                      ''Your activation order is being processed, please try again later''\<rparr>,
               snd (awaitAll drv (enterIccid cfg i k)) @
               [(Attempt k WaitAlready,
                 page_waitForSelector ''text=Your SIM card has been successfully activated'' 5000,
                 Rejected m1),
                (Attempt k WaitIssue,
                 page_waitForSelector ''text=The system is currently experiencing some issues'' 5000,
                 Rejected m2),
                (Attempt k WaitProcessing1,
                 page_waitForSelector ''text=Your activation order is being processed'' 5000,
                 Resolved)]))"
proof -
  obtain t0 where t0: "awaitAll drv (enterIccid cfg i k) = (None, t0)"
    using assms by (cases "awaitAll drv (enterIccid cfg i k)") simp
  have nc: "Attempt k ClickActivate \<notin> fst ` set t0"
    using no_click_in_entry[of k drv cfg i k] t0 by simp
  show ?thesis
    using nc by (simp add: attempt_def tryBlock_def checkResponse_def t0)
qed

text \<open>The theorem at three drivers: one that shows the already-activated text (although
  the other two texts would appear as well), one that shows the system-issues text, one
  that shows the being-processed text.\<close>

theorem already_activated_first_of_three_witness:
  "fst (awaitAll (rejecting [] []) (enterIccid exampleConfig ''8985200000000000001'' 0)) = None
   \<and> rejecting [] [] (Attempt 0 WaitAlready) = Resolved
   \<and> fst (attempt exampleConfig (rejecting [] []) 0 ''8985200000000000001'') =
        Inr \<lparr>iccid = ''8985200000000000001'', status = already_activated,
             error_detail = ''Your SIM card has been successfully activated''\<rparr>
   \<and> Attempt 0 ClickActivate \<notin>
        fst ` set (snd (attempt exampleConfig (rejecting [] []) 0 ''8985200000000000001''))
   \<and> rejecting [WaitAlready] ''Timeout 5000ms exceeded'' (Attempt 0 WaitAlready) =
        Rejected ''Timeout 5000ms exceeded''
   \<and> rejecting [WaitAlready] ''Timeout 5000ms exceeded'' (Attempt 0 WaitIssue) = Resolved
   \<and> fst (attempt exampleConfig (rejecting [WaitAlready] ''Timeout 5000ms exceeded'') 0
             ''8985200000000000001'') =
        Inr \<lparr>iccid = ''8985200000000000001'', status = invalid_iccid,
             error_detail = ''The system is currently experiencing some issues''\<rparr>
   \<and> rejecting [WaitAlready, WaitIssue] ''Timeout 5000ms exceeded'' (Attempt 0 WaitProcessing1) =
        Resolved
   \<and> fst (attempt exampleConfig (rejecting [WaitAlready, WaitIssue] ''Timeout 5000ms exceeded'') 0
             ''8985200000000000001'') =
        Inr \<lparr>iccid = ''8985200000000000001'', status = processing,
             error_detail = ''Your activation order is being processed, please try again later''\<rparr>"
proof -
  have h1: "fst (awaitAll (rejecting [] []) (enterIccid exampleConfig ''8985200000000000001'' 0))
              = None"
    by (simp add: enterIccid_def rejecting_def)
  have h2: "fst (awaitAll (rejecting [WaitAlready] ''Timeout 5000ms exceeded'')
              (enterIccid exampleConfig ''8985200000000000001'' 0)) = None"
    by (simp add: enterIccid_def rejecting_def)
  have h3: "fst (awaitAll (rejecting [WaitAlready, WaitIssue] ''Timeout 5000ms exceeded'')
              (enterIccid exampleConfig ''8985200000000000001'' 0)) = None"
    by (simp add: enterIccid_def rejecting_def)
  show ?thesis
    using h1 already_activated_first_of_three [OF h1] already_activated_first_of_three [OF h2]
      already_activated_first_of_three [OF h3]
    by (simp add: rejecting_def enterIccid_def)
qed

section \<open>Values and traces of the retry loop\<close>

text \<open>
  The value and the trace of each layer in terms of the layer below, so that a property of
  the value can be stated without the trace and the other way round.
\<close>

lemma fst_tryBlock:
  "fst (tryBlock entry cfg drv k i) =
     (case fst (awaitAll drv entry) of
        Some m \<Rightarrow> Inl m
      | None \<Rightarrow>
          (case fst (checkResponse drv k i) of
             Some r \<Rightarrow> Inr r
           | None \<Rightarrow>
               (case fst (awaitAll drv (activateNow cfg k)) of
                  Some m \<Rightarrow> Inl m
                | None \<Rightarrow> Inr (fst (checkFinal drv k i)))))"
  by (cases "awaitAll drv entry"; cases "checkResponse drv k i";
      cases "awaitAll drv (activateNow cfg k)"; cases "checkFinal drv k i")
     (simp add: tryBlock_def split: option.splits)

lemma snd_tryBlock:
  "snd (tryBlock entry cfg drv k i) =
     (case fst (awaitAll drv entry) of
        Some m \<Rightarrow> snd (awaitAll drv entry)
      | None \<Rightarrow>
          snd (awaitAll drv entry) @
          (case fst (checkResponse drv k i) of
             Some r \<Rightarrow> snd (checkResponse drv k i)
           | None \<Rightarrow>
               snd (checkResponse drv k i) @
               (case fst (awaitAll drv (activateNow cfg k)) of
                  Some m \<Rightarrow> snd (awaitAll drv (activateNow cfg k))
                | None \<Rightarrow> snd (awaitAll drv (activateNow cfg k)) @ snd (checkFinal drv k i))))"
  by (cases "awaitAll drv entry"; cases "checkResponse drv k i";
      cases "awaitAll drv (activateNow cfg k)"; cases "checkFinal drv k i")
     (simp add: tryBlock_def split: option.splits)

lemma fst_iteration:
  "fst (iteration att drv i k res) =
     (case drv (Attempt k NewPage) of
        Rejected m \<Rightarrow> Finish (res\<lparr>error_detail := m\<rparr>)
      | Resolved \<Rightarrow>
          (case fst (att drv k i) of
             Inr r \<Rightarrow> (case drv (Attempt k ClosePage) of
                         Resolved \<Rightarrow> Finish r
                       | Rejected m \<Rightarrow> Finish (r\<lparr>error_detail := m\<rparr>))
           | Inl e \<Rightarrow> (case drv (Attempt k ClosePage) of
                         Resolved \<Rightarrow> Continue (res\<lparr>error_detail := e\<rparr>)
                       | Rejected m \<Rightarrow> Finish (res\<lparr>error_detail := m\<rparr>))))"
  by (cases "att drv k i") (simp add: iteration_def split: resp.splits sum.splits)

lemma snd_iteration:
  "snd (iteration att drv i k res) =
     (case drv (Attempt k NewPage) of
        Rejected m \<Rightarrow> [(Attempt k NewPage, context_newPage, Rejected m)]
      | Resolved \<Rightarrow>
          (Attempt k NewPage, context_newPage, Resolved) # snd (att drv k i) @
          [(Attempt k ClosePage, page_close, drv (Attempt k ClosePage))])"
  by (cases "att drv k i") (simp add: iteration_def Let_def split: resp.splits sum.splits)

lemma fst_retryLoop_Suc:
  "fst (retryLoop att drv i (Suc n) k res) =
     (case fst (iteration att drv i k res) of
        Finish r \<Rightarrow> r
      | Continue r \<Rightarrow> fst (retryLoop att drv i n (Suc k) r))"
  by (cases "iteration att drv i k res")
     (simp split: completion.splits prod.splits)

lemma snd_retryLoop_Suc:
  "snd (retryLoop att drv i (Suc n) k res) =
     (case fst (iteration att drv i k res) of
        Finish r \<Rightarrow> snd (iteration att drv i k res)
      | Continue r \<Rightarrow> snd (iteration att drv i k res) @ snd (retryLoop att drv i n (Suc k) r))"
  by (cases "iteration att drv i k res")
     (simp split: completion.splits prod.splits)

lemma fst_runBody:
  "fst (runBody att drv i n) =
     (case drv CloseBrowser of
        Resolved \<Rightarrow> Inr (fst (retryLoop att drv i n 0 \<lparr>iccid = i, status = error, error_detail = []\<rparr>))
      | Rejected m \<Rightarrow> Inl m)"
  by (simp add: runBody_def split: prod.splits resp.splits)

lemma snd_runBody:
  "snd (runBody att drv i n) =
     snd (retryLoop att drv i n 0 \<lparr>iccid = i, status = error, error_detail = []\<rparr>) @
     [(CloseBrowser, browser_close, drv CloseBrowser)]"
  by (simp add: runBody_def split: prod.splits resp.splits)

lemma initBrowser_None:
  "fst (initBrowser drv) = None \<Longrightarrow>
     snd (initBrowser drv) =
       [(Launch, chromium_launch, Resolved), (NewContext, browser_newContext, Resolved)]"
  by (simp add: initBrowser_def split: resp.splits)

lemma fst_processIccid:
  "fst (processIccid cfg drv i n) =
     (case fst (initBrowser drv) of
        Some m \<Rightarrow> Inl m
      | None \<Rightarrow> fst (runBody (attempt cfg) drv i n))"
  by (simp add: processIccid_def split: prod.splits option.splits)

lemma fst_processIccid_srv:
  "fst (processIccid_srv cfg drv i n) =
     (case fst (initBrowser_srv drv) of
        Some m \<Rightarrow> Inl m
      | None \<Rightarrow> fst (runBody (attempt_srv cfg) drv i n))"
  by (simp add: processIccid_srv_def split: prod.splits option.splits)

lemma snd_processIccid:
  "snd (processIccid cfg drv i n) =
     (case fst (initBrowser drv) of
        Some m \<Rightarrow> snd (initBrowser drv)
      | None \<Rightarrow> snd (initBrowser drv) @ snd (runBody (attempt cfg) drv i n))"
  by (cases "initBrowser drv"; cases "runBody (attempt cfg) drv i n")
     (simp add: processIccid_def split: option.splits)

lemmas val_defs = fst_processIccid fst_processIccid_srv fst_runBody fst_retryLoop_Suc fst_iteration
  attempt_def attempt_srv_def fst_tryBlock initBrowser_def initBrowser_srv_def
  enterIccid_def enterIccid_srv_def checkResponse_def checkFinal_def activateNow_def
  scripted_def rejecting_def exampleConfig_def Let_def numeral_2_eq_2 numeral_3_eq_3

lemmas trace_defs = snd_processIccid snd_runBody snd_retryLoop_Suc snd_iteration snd_tryBlock

text \<open>
  Every call made inside the inner \<^verbatim>\<open>try\<close> block of attempt \<open>k\<close> is a call on the
  page of attempt \<open>k\<close>, and the loop only makes calls that belong to some attempt.
\<close>

lemma tryBlock_events:
  "set (snd (tryBlock entry cfg drv k i)) \<subseteq>
     set (snd (awaitAll drv entry)) \<union> set (snd (checkResponse drv k i)) \<union>
     set (snd (awaitAll drv (activateNow cfg k))) \<union> set (snd (checkFinal drv k i))"
  by (cases "awaitAll drv entry"; cases "checkResponse drv k i";
      cases "awaitAll drv (activateNow cfg k)"; cases "checkFinal drv k i")
     (auto simp: tryBlock_def split: option.splits)

lemma awaitAll_pageCalls:
  assumes "\<forall>x \<in> set cs. pageCall k (fst x, c0, r0)"
  shows "\<forall>e \<in> set (snd (awaitAll drv cs)). pageCall k e"
proof
  fix e assume e: "e \<in> set (snd (awaitAll drv cs))"
  obtain s c r where scr: "e = (s, c, r)" by (cases e)
  from awaitAll_events[of s c r drv cs] e scr have "(s, c) \<in> set cs" by simp
  with assms have "pageCall k (s, c0, r0)" by force
  then show "pageCall k e" by (simp add: pageCall_def scr)
qed

lemma checkResponse_pageCalls: "\<forall>e \<in> set (snd (checkResponse drv k i)). pageCall k e"
  by (simp add: checkResponse_def Let_def pageCall_def split: resp.splits)

lemma checkFinal_pageCalls: "\<forall>e \<in> set (snd (checkFinal drv k i)). pageCall k e"
  by (simp add: checkFinal_def Let_def pageCall_def split: resp.splits)

lemma activateNow_pageCalls: "\<forall>e \<in> set (snd (awaitAll drv (activateNow cfg k))). pageCall k e"
  by (rule awaitAll_pageCalls[where ?c0.0 = page_title and ?r0.0 = Resolved])
     (simp add: activateNow_def pageCall_def)

lemma tryBlock_pageCalls:
  assumes "\<forall>e \<in> set (snd (awaitAll drv entry)). pageCall k e"
  shows "\<forall>e \<in> set (snd (tryBlock entry cfg drv k i)). pageCall k e"
  using assms checkResponse_pageCalls[of drv k i] checkFinal_pageCalls[of drv k i]
    activateNow_pageCalls[of drv cfg k] tryBlock_events[of entry cfg drv k i]
  by blast

lemma attempt_pageCalls: "\<forall>e \<in> set (snd (attempt cfg drv k i)). pageCall k e"
  unfolding attempt_def
  by (rule tryBlock_pageCalls,
      rule awaitAll_pageCalls[where ?c0.0 = page_title and ?r0.0 = Resolved])
     (simp add: enterIccid_def pageCall_def)

lemma pageCallD: "pageCall k e \<Longrightarrow> \<exists>st. fst e = Attempt k st \<and> st \<noteq> NewPage \<and> st \<noteq> ClosePage"
  by (cases "fst e") (simp_all add: pageCall_def)

lemma retryLoop_attempt_sites:
  assumes att: "\<And>k. \<forall>e \<in> set (snd (att drv k i)). pageCall k e"
  shows "\<forall>e \<in> set (snd (retryLoop att drv i n k res)). \<exists>j st. fst e = Attempt j st \<and> k \<le> j"
proof (induction n arbitrary: k res)
  case 0
  then show ?case by simp
next
  case (Suc n)
  have "\<forall>e \<in> set (snd (att drv k i)). \<exists>j st. fst e = Attempt j st \<and> k \<le> j"
    using att[of k] pageCallD by blast
  then have here: "\<forall>e \<in> set (snd (iteration att drv i k res)). \<exists>j st. fst e = Attempt j st \<and> k \<le> j"
    by (simp add: snd_iteration split: resp.splits)
  have "\<forall>e \<in> set (snd (retryLoop att drv i n (Suc k) r)). \<exists>j st. fst e = Attempt j st \<and> k \<le> j" for r
    using Suc.IH[of "Suc k" r] by (meson Suc_leD)
  then show ?case
    using here by (simp add: snd_retryLoop_Suc ball_Un split: completion.splits del: retryLoop.simps)
qed

lemma retryLoop_sites_upto:
  assumes att: "\<And>k. \<forall>e \<in> set (snd (att drv k i)). pageCall k e"
    and fin: "\<And>res. \<exists>r. fst (iteration att drv i q res) = Finish r"
  shows "k \<le> q \<Longrightarrow>
    \<forall>e \<in> set (snd (retryLoop att drv i n k res)). \<exists>j st. fst e = Attempt j st \<and> j \<le> q"
proof (induction n arbitrary: k res)
  case 0
  then show ?case by simp
next
  case (Suc n)
  have "\<forall>e \<in> set (snd (att drv k i)). \<exists>j st. fst e = Attempt j st \<and> j \<le> q"
    using att[of k] Suc.prems pageCallD by blast
  then have here: "\<forall>e \<in> set (snd (iteration att drv i k res)). \<exists>j st. fst e = Attempt j st \<and> j \<le> q"
    using Suc.prems by (simp add: snd_iteration split: resp.splits)
  show ?case
  proof (cases "fst (iteration att drv i k res)")
    case (Finish r)
    then show ?thesis using here by (simp add: snd_retryLoop_Suc del: retryLoop.simps)
  next
    case (Continue r)
    have "k \<noteq> q" using fin[of res] Continue by auto
    then have "Suc k \<le> q" using Suc.prems by simp
    from Suc.IH[OF this, of r] show ?thesis
      using here Continue by (simp add: snd_retryLoop_Suc ball_Un del: retryLoop.simps)
  qed
qed

text \<open>
  Every result object is built from the parameter \<^verbatim>\<open>iccid\<close>, and the
  \<^verbatim>\<open>catch\<close> blocks only write \<^verbatim>\<open>error_detail\<close>.
\<close>

lemma tryBlock_iccid: "fst (tryBlock entry cfg drv k i) = Inr r \<Longrightarrow> iccid r = i"
  by (auto simp: fst_tryBlock checkResponse_def checkFinal_def Let_def
           split: option.splits resp.splits)

lemma iteration_iccid:
  assumes "\<And>k r. fst (att drv k i) = Inr r \<Longrightarrow> iccid r = i" and "iccid res = i"
  shows "case fst (iteration att drv i k res) of Finish r \<Rightarrow> iccid r = i | Continue r \<Rightarrow> iccid r = i"
  using assms by (auto simp: fst_iteration split: resp.splits sum.splits)

lemma retryLoop_iccid:
  assumes att: "\<And>k r. fst (att drv k i) = Inr r \<Longrightarrow> iccid r = i"
  shows "iccid res = i \<Longrightarrow> iccid (fst (retryLoop att drv i n k res)) = i"
proof (induction n arbitrary: k res)
  case 0
  then show ?case by simp
next
  case (Suc n)
  from iteration_iccid[of att drv i res k, OF att Suc.prems]
  show ?case
    by (cases "fst (iteration att drv i k res)")
       (simp_all add: fst_retryLoop_Suc Suc.IH del: retryLoop.simps)
qed

lemma runBody_iccid:
  assumes att: "\<And>k r. fst (att drv k i) = Inr r \<Longrightarrow> iccid r = i"
    and "fst (runBody att drv i n) = Inr r"
  shows "iccid r = i"
proof -
  have "iccid (fst (retryLoop att drv i n 0 \<lparr>iccid = i, status = error, error_detail = []\<rparr>)) = i"
    by (rule retryLoop_iccid[OF att]) simp_all
  then show ?thesis
    using assms(2) by (auto simp: fst_runBody split: resp.splits)
qed

lemma body_iccid:
  "fst (runBody (attempt cfg) drv i n) = Inr r \<Longrightarrow> iccid r = i"
  "fst (runBody (attempt_srv cfg) drv i n) = Inr r \<Longrightarrow> iccid r = i"
  by (erule runBody_iccid[rotated], simp add: attempt_def attempt_srv_def tryBlock_iccid)+

section \<open>Activate Now and the final check\<close>

text \<open>
  Claim C4 says that an attempt in which none of the three texts appears after Next Step
  clicks Activate Now and classifies, the last case with the detail
  \<^verbatim>\<open>no expected response\<close>. The wait for the button and the click (lines 100 and 101)
  are awaited in the inner \<^verbatim>\<open>try\<close> with no \<^verbatim>\<open>catch\<close> of their own. In the first
  run below the button never appears: the attempt raises the timeout, makes no click and
  returns no result. In the second run nothing appears after the click either, and the
  detail of the result is \<^verbatim>\<open>No expected response received\<close>.
\<close>

theorem missing_button_no_click_no_outcome:
  "fst (attempt exampleConfig
     (scripted [(Attempt 0 WaitAlready, ''Timeout 5000ms exceeded''),
                (Attempt 0 WaitIssue, ''Timeout 5000ms exceeded''),
                (Attempt 0 WaitProcessing1, ''Timeout 5000ms exceeded''),
                (Attempt 0 WaitActivate, ''Timeout 30000ms exceeded'')]) 0
     ''8985200000000000001'') = Inl ''Timeout 30000ms exceeded''
   \<and> Attempt 0 ClickActivate \<notin> fst ` set (snd (attempt exampleConfig
     (scripted [(Attempt 0 WaitAlready, ''Timeout 5000ms exceeded''),
                (Attempt 0 WaitIssue, ''Timeout 5000ms exceeded''),
                (Attempt 0 WaitProcessing1, ''Timeout 5000ms exceeded''),
                (Attempt 0 WaitActivate, ''Timeout 30000ms exceeded'')]) 0
     ''8985200000000000001''))
   \<and> fst (attempt exampleConfig
     (rejecting [WaitAlready, WaitIssue, WaitProcessing1, WaitSuccess, WaitProcessing2]
        ''Timeout 5000ms exceeded'') 0 ''8985200000000000001'') =
      Inr \<lparr>iccid = ''8985200000000000001'', status = activation_failed,
           error_detail = ''No expected response received''\<rparr>
   \<and> ''No expected response received'' \<noteq> ''no expected response''"
  by (simp add: val_defs trace_defs)

text \<open>
  Claim C4, amended. Take one attempt that gets as far as the click on Next Step and in
  which the three waits of the first check all reject. The attempt then waits for the
  Activate Now button and clicks it. If both calls resolve, it goes on to the final check
  and returns its result: status \<open>success\<close> if the wait for the activated text
  resolves; otherwise \<open>processing\<close> if the wait for the being-processed text resolves;
  otherwise \<open>activation_failed\<close>, with the detail \<^verbatim>\<open>No expected response received\<close>.
  If the wait for the button or the click rejects, the attempt raises that failure: no
  click has succeeded, the final check is not made and no result is returned.
\<close>

theorem no_marker_then_activate_and_classify:
  assumes "fst (awaitAll drv (enterIccid cfg i k)) = None"
    and "drv (Attempt k WaitAlready) = Rejected m1"
    and "drv (Attempt k WaitIssue) = Rejected m2"
    and "drv (Attempt k WaitProcessing1) = Rejected m3"
  shows "(fst (awaitAll drv (activateNow cfg k)) = None \<longrightarrow>
           snd (attempt cfg drv k i) =
             snd (awaitAll drv (enterIccid cfg i k)) @
             [(Attempt k WaitAlready,
               page_waitForSelector ''text=Your SIM card has been successfully activated'' 5000,
               Rejected m1),
              (Attempt k WaitIssue,
               page_waitForSelector ''text=The system is currently experiencing some issues'' 5000,
               Rejected m2),
              (Attempt k WaitProcessing1,
               page_waitForSelector ''text=Your activation order is being processed'' 5000,
               Rejected m3),
              (Attempt k WaitActivate,
               page_waitForSelector (activate_button (selectors cfg)) 30000, Resolved),
              (Attempt k ClickActivate, page_click (activate_button (selectors cfg)), Resolved)] @
             snd (checkFinal drv k i)
         \<and> (drv (Attempt k WaitSuccess) = Resolved \<longrightarrow>
              fst (attempt cfg drv k i) =
                Inr \<lparr>iccid = i, status = success,
                     error_detail = ''Your SIM card has been successfully activated''\<rparr>)
         \<and> (drv (Attempt k WaitSuccess) \<noteq> Resolved \<and> drv (Attempt k WaitProcessing2) = Resolved \<longrightarrow>
              fst (attempt cfg drv k i) =
                Inr \<lparr>iccid = i, status = processing,
                     error_detail =
                       ''Your activation order is being processed, please try again later''\<rparr>)
         \<and> (drv (Attempt k WaitSuccess) \<noteq> Resolved \<and> drv (Attempt k WaitProcessing2) \<noteq> Resolved \<longrightarrow>
              fst (attempt cfg drv k i) =
                Inr \<lparr>iccid = i, status = activation_failed,
                     error_detail = ''No expected response received''\<rparr>))
       \<and> (\<forall>m. fst (awaitAll drv (activateNow cfg k)) = Some m \<longrightarrow>
             fst (attempt cfg drv k i) = Inl m
           \<and> (Attempt k ClickActivate, page_click (activate_button (selectors cfg)), Resolved)
                 \<notin> set (snd (attempt cfg drv k i))
           \<and> Attempt k WaitSuccess \<notin> fst ` set (snd (attempt cfg drv k i))
           \<and> Attempt k WaitProcessing2 \<notin> fst ` set (snd (attempt cfg drv k i)))"
proof -
  obtain t0 where t0: "awaitAll drv (enterIccid cfg i k) = (None, t0)"
    using assms(1) by (cases "awaitAll drv (enterIccid cfg i k)") simp
  have s0: "fst ` set t0 \<subseteq> fst ` set (enterIccid cfg i k)"
    using awaitAll_sites[of drv "enterIccid cfg i k"] t0 by simp
  have n0: "Attempt k ClickActivate \<notin> fst ` set t0" "Attempt k WaitSuccess \<notin> fst ` set t0"
      "Attempt k WaitProcessing2 \<notin> fst ` set t0"
    using s0 by (auto simp: entry_sites)
  then have n1: "(Attempt k ClickActivate, page_click (activate_button (selectors cfg)), Resolved)
      \<notin> set t0"
    by force
  have first: "checkResponse drv k i =
    (None,
     [(Attempt k WaitAlready,
       page_waitForSelector ''text=Your SIM card has been successfully activated'' 5000,
       Rejected m1),
      (Attempt k WaitIssue,
       page_waitForSelector ''text=The system is currently experiencing some issues'' 5000,
       Rejected m2),
      (Attempt k WaitProcessing1,
       page_waitForSelector ''text=Your activation order is being processed'' 5000,
       Rejected m3)])"
    using assms(2-4) by (simp add: checkResponse_def)
  show ?thesis
  proof (cases "drv (Attempt k WaitActivate)")
    case (Rejected m)
    then show ?thesis
      using n0 n1 by (simp add: attempt_def tryBlock_def t0 first activateNow_def)
  next
    case wa: Resolved
    show ?thesis
    proof (cases "drv (Attempt k ClickActivate)")
      case (Rejected m)
      then show ?thesis
        using wa n0 n1 by (simp add: attempt_def tryBlock_def t0 first activateNow_def)
    next
      case Resolved
      then show ?thesis
        using wa
        by (auto simp: attempt_def tryBlock_def t0 first activateNow_def checkFinal_def Let_def
                 split: resp.splits)
    qed
  qed
qed

text \<open>The theorem at three drivers that show none of the three texts after Next Step and
  let the click through (the first shows the activated text after the click, the second
  the being-processed text, the third nothing), and at a driver for which the button
  never appears.\<close>

theorem no_marker_then_activate_and_classify_witness:
  "fst (awaitAll (rejecting [WaitAlready, WaitIssue, WaitProcessing1] ''Timeout 5000ms exceeded'')
          (enterIccid exampleConfig ''8985200000000000001'' 0)) = None
   \<and> fst (awaitAll (rejecting [WaitAlready, WaitIssue, WaitProcessing1] ''Timeout 5000ms exceeded'')
          (activateNow exampleConfig 0)) = None
   \<and> fst (attempt exampleConfig
        (rejecting [WaitAlready, WaitIssue, WaitProcessing1] ''Timeout 5000ms exceeded'') 0
        ''8985200000000000001'') =
      Inr \<lparr>iccid = ''8985200000000000001'', status = success,
           error_detail = ''Your SIM card has been successfully activated''\<rparr>
   \<and> fst (attempt exampleConfig
        (rejecting [WaitAlready, WaitIssue, WaitProcessing1, WaitSuccess]
           ''Timeout 5000ms exceeded'') 0 ''8985200000000000001'') =
      Inr \<lparr>iccid = ''8985200000000000001'', status = processing,
           error_detail = ''Your activation order is being processed, please try again later''\<rparr>
   \<and> fst (attempt exampleConfig
        (rejecting [WaitAlready, WaitIssue, WaitProcessing1, WaitSuccess, WaitProcessing2]
           ''Timeout 5000ms exceeded'') 0 ''8985200000000000001'') =
      Inr \<lparr>iccid = ''8985200000000000001'', status = activation_failed,
           error_detail = ''No expected response received''\<rparr>
   \<and> fst (awaitAll (rejecting [WaitAlready, WaitIssue, WaitProcessing1, WaitActivate]
            ''Timeout exceeded'') (activateNow exampleConfig 0)) = Some ''Timeout exceeded''
   \<and> fst (attempt exampleConfig
        (rejecting [WaitAlready, WaitIssue, WaitProcessing1, WaitActivate] ''Timeout exceeded'') 0
        ''8985200000000000001'') = Inl ''Timeout exceeded''
   \<and> (Attempt 0 ClickActivate, page_click (activate_button (selectors exampleConfig)), Resolved)
        \<notin> set (snd (attempt exampleConfig
        (rejecting [WaitAlready, WaitIssue, WaitProcessing1, WaitActivate] ''Timeout exceeded'') 0
        ''8985200000000000001''))"
proof -
  let ?m = "''Timeout 5000ms exceeded''"
  let ?d1 = "rejecting [WaitAlready, WaitIssue, WaitProcessing1] ?m"
  let ?d2 = "rejecting [WaitAlready, WaitIssue, WaitProcessing1, WaitSuccess] ?m"
  let ?d3 = "rejecting [WaitAlready, WaitIssue, WaitProcessing1, WaitSuccess, WaitProcessing2] ?m"
  let ?d4 = "rejecting [WaitAlready, WaitIssue, WaitProcessing1, WaitActivate] ''Timeout exceeded''"
  have e1: "fst (awaitAll ?d1 (enterIccid exampleConfig ''8985200000000000001'' 0)) = None"
    and e2: "fst (awaitAll ?d2 (enterIccid exampleConfig ''8985200000000000001'' 0)) = None"
    and e3: "fst (awaitAll ?d3 (enterIccid exampleConfig ''8985200000000000001'' 0)) = None"
    and e4: "fst (awaitAll ?d4 (enterIccid exampleConfig ''8985200000000000001'' 0)) = None"
    by (simp_all add: enterIccid_def rejecting_def)
  have a1: "fst (awaitAll ?d1 (activateNow exampleConfig 0)) = None"
    and a2: "fst (awaitAll ?d2 (activateNow exampleConfig 0)) = None"
    and a3: "fst (awaitAll ?d3 (activateNow exampleConfig 0)) = None"
    and a4: "fst (awaitAll ?d4 (activateNow exampleConfig 0)) = Some ''Timeout exceeded''"
    by (simp_all add: activateNow_def rejecting_def)
  have r1: "?d1 (Attempt 0 WaitAlready) = Rejected ?m" "?d1 (Attempt 0 WaitIssue) = Rejected ?m"
      "?d1 (Attempt 0 WaitProcessing1) = Rejected ?m"
    and r2: "?d2 (Attempt 0 WaitAlready) = Rejected ?m" "?d2 (Attempt 0 WaitIssue) = Rejected ?m"
      "?d2 (Attempt 0 WaitProcessing1) = Rejected ?m"
    and r3: "?d3 (Attempt 0 WaitAlready) = Rejected ?m" "?d3 (Attempt 0 WaitIssue) = Rejected ?m"
      "?d3 (Attempt 0 WaitProcessing1) = Rejected ?m"
    and r4: "?d4 (Attempt 0 WaitAlready) = Rejected ''Timeout exceeded''"
      "?d4 (Attempt 0 WaitIssue) = Rejected ''Timeout exceeded''"
      "?d4 (Attempt 0 WaitProcessing1) = Rejected ''Timeout exceeded''"
    by (simp_all add: rejecting_def)
  note t1 = no_marker_then_activate_and_classify [OF e1 r1]
  note t2 = no_marker_then_activate_and_classify [OF e2 r2]
  note t3 = no_marker_then_activate_and_classify [OF e3 r3]
  note t4 = no_marker_then_activate_and_classify [OF e4 r4]
  have s1: "?d1 (Attempt 0 WaitSuccess) = Resolved"
    and s2: "?d2 (Attempt 0 WaitSuccess) \<noteq> Resolved" "?d2 (Attempt 0 WaitProcessing2) = Resolved"
    and s3: "?d3 (Attempt 0 WaitSuccess) \<noteq> Resolved" "?d3 (Attempt 0 WaitProcessing2) \<noteq> Resolved"
    by (simp_all add: rejecting_def)
  from t1 a1 s1 have c1: "fst (attempt exampleConfig ?d1 0 ''8985200000000000001'') =
      Inr \<lparr>iccid = ''8985200000000000001'', status = success,
           error_detail = ''Your SIM card has been successfully activated''\<rparr>"
    by blast
  from t2 a2 s2 have c2: "fst (attempt exampleConfig ?d2 0 ''8985200000000000001'') =
      Inr \<lparr>iccid = ''8985200000000000001'', status = processing,
           error_detail = ''Your activation order is being processed, please try again later''\<rparr>"
    by blast
  from t3 a3 s3 have c3: "fst (attempt exampleConfig ?d3 0 ''8985200000000000001'') =
      Inr \<lparr>iccid = ''8985200000000000001'', status = activation_failed,
           error_detail = ''No expected response received''\<rparr>"
    by blast
  from t4 a4 have c4: "fst (attempt exampleConfig ?d4 0 ''8985200000000000001'') =
        Inl ''Timeout exceeded''
      \<and> (Attempt 0 ClickActivate, page_click (activate_button (selectors exampleConfig)), Resolved)
        \<notin> set (snd (attempt exampleConfig ?d4 0 ''8985200000000000001''))"
    by blast
  show ?thesis
    using e1 a1 a4 c1 c2 c3 c4 by blast
qed

section \<open>One text, two statuses\<close>

lemma tryBlock_activated_text:
  assumes ret: "fst (tryBlock entry cfg drv k i) = Inr r"
    and e1: "Attempt k WaitAlready \<notin> fst ` set entry"
    and e2: "Attempt k WaitSuccess \<notin> fst ` set entry"
    and e3: "Attempt k ClickActivate \<notin> fst ` set entry"
  shows "(status r = already_activated \<longleftrightarrow>
            (Attempt k WaitAlready,
             page_waitForSelector ''text=Your SIM card has been successfully activated'' 5000,
             Resolved) \<in> set (snd (tryBlock entry cfg drv k i)))
       \<and> (status r = success \<longleftrightarrow>
            (Attempt k WaitSuccess,
             page_waitForSelector ''text=Your SIM card has been successfully activated'' 5000,
             Resolved) \<in> set (snd (tryBlock entry cfg drv k i)))
       \<and> (status r = already_activated \<longrightarrow>
            error_detail r = ''Your SIM card has been successfully activated''
            \<and> Attempt k ClickActivate \<notin> fst ` set (snd (tryBlock entry cfg drv k i)))
       \<and> (status r = success \<longrightarrow>
            error_detail r = ''Your SIM card has been successfully activated''
            \<and> (\<exists>before. snd (tryBlock entry cfg drv k i) =
                  before @
                  [(Attempt k ClickActivate, page_click (activate_button (selectors cfg)), Resolved),
                   (Attempt k WaitSuccess,
                    page_waitForSelector ''text=Your SIM card has been successfully activated'' 5000,
                    Resolved)]))"
proof -
  obtain x t0 where t0: "awaitAll drv entry = (x, t0)"
    by (cases "awaitAll drv entry")
  have s: "fst ` set t0 \<subseteq> fst ` set entry"
    using awaitAll_sites[of drv entry] t0 by simp
  have n1: "\<And>c q. (Attempt k WaitAlready, c, q) \<notin> set t0"
    and n2: "\<And>c q. (Attempt k WaitSuccess, c, q) \<notin> set t0"
    and n3: "Attempt k ClickActivate \<notin> fst ` set t0"
    using s e1 e2 e3 by force+
  show ?thesis
  proof (cases x)
    case (Some m)
    then show ?thesis using ret by (simp add: tryBlock_def t0)
  next
    case None
    note x = None
    show ?thesis
    proof (cases "drv (Attempt k WaitAlready)")
      case Resolved
      then show ?thesis
        using ret n1 n2 n3 by (auto simp: tryBlock_def t0 x checkResponse_def)
    next
      case a: (Rejected m1)
      show ?thesis
      proof (cases "drv (Attempt k WaitIssue)")
        case Resolved
        then show ?thesis
          using ret n1 n2 n3 a by (auto simp: tryBlock_def t0 x checkResponse_def)
      next
        case b: (Rejected m2)
        show ?thesis
        proof (cases "drv (Attempt k WaitProcessing1)")
          case Resolved
          then show ?thesis
            using ret n1 n2 n3 a b by (auto simp: tryBlock_def t0 x checkResponse_def)
        next
          case c: (Rejected m3)
          have first: "checkResponse drv k i =
            (None,
             [(Attempt k WaitAlready,
               page_waitForSelector ''text=Your SIM card has been successfully activated'' 5000,
               Rejected m1),
              (Attempt k WaitIssue,
               page_waitForSelector ''text=The system is currently experiencing some issues'' 5000,
               Rejected m2),
              (Attempt k WaitProcessing1,
               page_waitForSelector ''text=Your activation order is being processed'' 5000,
               Rejected m3)])"
            using a b c by (simp add: checkResponse_def)
          show ?thesis
            using ret n1 n2 n3
            by (auto simp: tryBlock_def t0 x first checkFinal_def activateNow_def Let_def
                     split: resp.splits)
        qed
      qed
    qed
  qed
qed

lemma attempt_already_iff:
  "(\<exists>r. fst (tryBlock entry cfg drv k i) = Inr r \<and> status r = already_activated) \<longleftrightarrow>
     fst (awaitAll drv entry) = None \<and> drv (Attempt k WaitAlready) = Resolved"
proof (cases "fst (awaitAll drv entry)")
  case (Some m)
  then show ?thesis by (simp add: fst_tryBlock)
next
  case None
  show ?thesis
  proof (cases "drv (Attempt k WaitAlready)")
    case Resolved
    then show ?thesis by (simp add: fst_tryBlock None checkResponse_def Let_def)
  next
    case r1: (Rejected m1)
    show ?thesis
    proof (cases "fst (checkResponse drv k i)")
      case (Some r)
      then show ?thesis
        using r1 by (auto simp: fst_tryBlock None checkResponse_def Let_def split: resp.splits)
    next
      case cr: None
      show ?thesis
      proof (cases "fst (awaitAll drv (activateNow cfg k))")
        case (Some m)
        then show ?thesis using r1 by (simp add: fst_tryBlock None cr)
      next
        case an: None
        show ?thesis
          using r1 by (simp add: fst_tryBlock None cr an checkFinal_def Let_def split: resp.splits)
      qed
    qed
  qed
qed

lemma attempt_success_iff:
  "(\<exists>r. fst (tryBlock entry cfg drv k i) = Inr r \<and> status r = success) \<longleftrightarrow>
     fst (awaitAll drv entry) = None
     \<and> drv (Attempt k WaitAlready) \<noteq> Resolved
     \<and> drv (Attempt k WaitIssue) \<noteq> Resolved
     \<and> drv (Attempt k WaitProcessing1) \<noteq> Resolved
     \<and> fst (awaitAll drv (activateNow cfg k)) = None
     \<and> drv (Attempt k WaitSuccess) = Resolved"
proof (cases "fst (awaitAll drv entry)")
  case (Some m)
  then show ?thesis by (simp add: fst_tryBlock)
next
  case None
  show ?thesis
  proof (cases "fst (checkResponse drv k i)")
    case (Some r)
    then show ?thesis
      by (auto simp: fst_tryBlock None checkResponse_def Let_def split: resp.splits)
  next
    case cr: None
    then have rej: "drv (Attempt k WaitAlready) \<noteq> Resolved" "drv (Attempt k WaitIssue) \<noteq> Resolved"
        "drv (Attempt k WaitProcessing1) \<noteq> Resolved"
      by (auto simp: checkResponse_def Let_def split: resp.splits)
    show ?thesis
    proof (cases "fst (awaitAll drv (activateNow cfg k))")
      case (Some m)
      then show ?thesis by (simp add: fst_tryBlock None cr)
    next
      case an: None
      show ?thesis
        using rej by (simp add: fst_tryBlock None cr an checkFinal_def Let_def split: resp.splits)
    qed
  qed
qed

lemma retryLoop_classified:
  assumes "status (fst (retryLoop att drv i n k res)) \<noteq> status res"
  shows "\<exists>j<n. \<exists>r0. drv (Attempt (k + j) NewPage) = Resolved
           \<and> fst (att drv (k + j) i) = Inr r0
           \<and> fst (retryLoop att drv i n k res) =
               (case drv (Attempt (k + j) ClosePage) of
                  Resolved \<Rightarrow> r0
                | Rejected m \<Rightarrow> r0\<lparr>error_detail := m\<rparr>)"
  using assms
proof (induction n arbitrary: k res)
  case 0
  then show ?case by simp
next
  case (Suc n)
  show ?case
  proof (cases "drv (Attempt k NewPage)")
    case (Rejected m)
    then show ?thesis
      using Suc.prems by (simp add: fst_retryLoop_Suc fst_iteration del: retryLoop.simps)
  next
    case np: Resolved
    show ?thesis
    proof (cases "fst (att drv k i)")
      case (Inr r0)
      have "fst (retryLoop att drv i (Suc n) k res) =
               (case drv (Attempt k ClosePage) of
                  Resolved \<Rightarrow> r0
                | Rejected m \<Rightarrow> r0\<lparr>error_detail := m\<rparr>)"
        by (simp add: fst_retryLoop_Suc fst_iteration np Inr del: retryLoop.simps split: resp.splits)
      then have "drv (Attempt (k + 0) NewPage) = Resolved
           \<and> fst (att drv (k + 0) i) = Inr r0
           \<and> fst (retryLoop att drv i (Suc n) k res) =
               (case drv (Attempt (k + 0) ClosePage) of
                  Resolved \<Rightarrow> r0
                | Rejected m \<Rightarrow> r0\<lparr>error_detail := m\<rparr>)"
        using np Inr by simp
      then show ?thesis by blast
    next
      case (Inl e)
      show ?thesis
      proof (cases "drv (Attempt k ClosePage)")
        case (Rejected m)
        then show ?thesis
          using Suc.prems
          by (simp add: fst_retryLoop_Suc fst_iteration np Inl del: retryLoop.simps)
      next
        case Resolved
        then have eq: "fst (retryLoop att drv i (Suc n) k res) =
            fst (retryLoop att drv i n (Suc k) (res\<lparr>error_detail := e\<rparr>))"
          by (simp add: fst_retryLoop_Suc fst_iteration np Inl del: retryLoop.simps)
        then have "status (fst (retryLoop att drv i n (Suc k) (res\<lparr>error_detail := e\<rparr>)))
            \<noteq> status (res\<lparr>error_detail := e\<rparr>)"
          using Suc.prems by simp
        from Suc.IH[OF this] obtain j r0 where j: "j < n"
          "drv (Attempt (Suc k + j) NewPage) = Resolved"
          "fst (att drv (Suc k + j) i) = Inr r0"
          "fst (retryLoop att drv i n (Suc k) (res\<lparr>error_detail := e\<rparr>)) =
               (case drv (Attempt (Suc k + j) ClosePage) of
                  Resolved \<Rightarrow> r0
                | Rejected m \<Rightarrow> r0\<lparr>error_detail := m\<rparr>)"
          by blast
        then have "Suc j < Suc n \<and> drv (Attempt (k + Suc j) NewPage) = Resolved
           \<and> fst (att drv (k + Suc j) i) = Inr r0
           \<and> fst (retryLoop att drv i (Suc n) k res) =
               (case drv (Attempt (k + Suc j) ClosePage) of
                  Resolved \<Rightarrow> r0
                | Rejected m \<Rightarrow> r0\<lparr>error_detail := m\<rparr>)"
          using eq by simp
        then show ?thesis by blast
      qed
    qed
  qed
qed

lemma runBody_classified:
  assumes ret: "fst (runBody att drv i n) = Inr r"
    and st: "status r \<noteq> error"
  shows "\<exists>k<n. \<exists>r0. fst (att drv k i) = Inr r0
           \<and> r = (case drv (Attempt k ClosePage) of
                    Resolved \<Rightarrow> r0
                  | Rejected m \<Rightarrow> r0\<lparr>error_detail := m\<rparr>)"
proof -
  let ?res = "\<lparr>iccid = i, status = error, error_detail = []\<rparr>"
  have r: "r = fst (retryLoop att drv i n 0 ?res)"
    using ret by (simp add: fst_runBody split: resp.splits)
  then have "status (fst (retryLoop att drv i n 0 ?res)) \<noteq> status ?res"
    using st by simp
  from retryLoop_classified[OF this] r show ?thesis
    by auto
qed

text \<open>
  Claim C10 says that for every behaviour of the driver the detail of the result equals
  the text \<^verbatim>\<open>Your SIM card has been successfully activated\<close> in both cases. The
  \<^verbatim>\<open>return\<close> of the classified object passes through
  \<^verbatim>\<open>finally { await page.close(); }\<close>. In the two runs below \<^verbatim>\<open>page.close()\<close>
  rejects after the attempt has classified, once before the click (first file) and once
  after it (server file): the outer \<^verbatim>\<open>catch\<close> writes the message of that rejection
  into \<^verbatim>\<open>error_detail\<close> of the classified object, and \<^verbatim>\<open>processIccid\<close> returns
  the status \<open>already_activated\<close>, respectively \<open>success\<close>, with a detail that is not
  the text.
\<close>

theorem close_message_replaces_marker_text:
  "fst (processIccid exampleConfig
          (scripted [(Attempt 0 ClosePage, ''Target page, context or browser has been closed'')])
          ''8985200000000000001'' 2) =
     Inr \<lparr>iccid = ''8985200000000000001'', status = already_activated,
          error_detail = ''Target page, context or browser has been closed''\<rparr>
   \<and> fst (processIccid_srv exampleConfig
          (scripted [(Attempt 0 WaitAlready, ''Timeout 5000ms exceeded''),
                     (Attempt 0 WaitIssue, ''Timeout 5000ms exceeded''),
                     (Attempt 0 WaitProcessing1, ''Timeout 5000ms exceeded''),
                     (Attempt 0 ClosePage, ''Target page, context or browser has been closed'')])
          ''8985200000000000001'' 2) =
     Inr \<lparr>iccid = ''8985200000000000001'', status = success,
          error_detail = ''Target page, context or browser has been closed''\<rparr>
   \<and> ''Target page, context or browser has been closed'' \<noteq>
       ''Your SIM card has been successfully activated''"
  by (simp add: val_defs del: retryLoop.simps(2))

text \<open>
  Claim C10, amended. In both files the wait before the click on Activate Now and the
  wait after it look for the same text, \<^verbatim>\<open>Your SIM card has been successfully activated\<close>,
  with the same call. Here \<open>att\<close> is the inner \<^verbatim>\<open>try\<close> block of either file,
  \<open>entry\<close> its calls up to the click on Next Step and \<open>proc\<close> its
  \<^verbatim>\<open>processIccid\<close>. For every driver:

  \<^item> attempt \<open>k\<close> returns a result with status \<open>already_activated\<close> exactly when the calls
    up to Next Step resolve and the driver resolves the wait for the text before the click;

  \<^item> it returns a result with status \<open>success\<close> exactly when the calls up to Next Step
    resolve, the driver resolves none of the three waits before the click, the wait for
    the button and the click resolve, and the driver resolves the wait for the text after
    the click;

  \<^item> in the result the attempt returns, \<^verbatim>\<open>error_detail\<close> is that text in both
    cases; with \<open>already_activated\<close> the click was never made, with \<open>success\<close> the two
    last calls of the attempt are the click and the wait;

  \<^item> a result with one of the two statuses that \<^verbatim>\<open>processIccid\<close> returns is the
    result \<open>r0\<close> of one of its attempts, with that status and that text as detail,
    unchanged if \<^verbatim>\<open>page.close()\<close> of that attempt resolved, and with the message of
    the rejection as \<^verbatim>\<open>error_detail\<close> if it rejected.
\<close>

theorem same_text_before_or_after_click:
  assumes "(att, entry, proc) = (attempt, enterIccid, processIccid)
         \<or> (att, entry, proc) = (attempt_srv, enterIccid_srv, processIccid_srv)"
  shows "((\<exists>r. fst (att cfg drv k i) = Inr r \<and> status r = already_activated) \<longleftrightarrow>
            fst (awaitAll drv (entry cfg i k)) = None \<and> drv (Attempt k WaitAlready) = Resolved)
       \<and> ((\<exists>r. fst (att cfg drv k i) = Inr r \<and> status r = success) \<longleftrightarrow>
            fst (awaitAll drv (entry cfg i k)) = None
            \<and> drv (Attempt k WaitAlready) \<noteq> Resolved
            \<and> drv (Attempt k WaitIssue) \<noteq> Resolved
            \<and> drv (Attempt k WaitProcessing1) \<noteq> Resolved
            \<and> fst (awaitAll drv (activateNow cfg k)) = None
            \<and> drv (Attempt k WaitSuccess) = Resolved)
       \<and> (\<forall>r. fst (att cfg drv k i) = Inr r \<longrightarrow>
            (status r = already_activated \<longleftrightarrow>
               (Attempt k WaitAlready,
                page_waitForSelector ''text=Your SIM card has been successfully activated'' 5000,
                Resolved) \<in> set (snd (att cfg drv k i)))
          \<and> (status r = success \<longleftrightarrow>
               (Attempt k WaitSuccess,
                page_waitForSelector ''text=Your SIM card has been successfully activated'' 5000,
                Resolved) \<in> set (snd (att cfg drv k i)))
          \<and> (status r = already_activated \<longrightarrow>
               error_detail r = ''Your SIM card has been successfully activated''
               \<and> Attempt k ClickActivate \<notin> fst ` set (snd (att cfg drv k i)))
          \<and> (status r = success \<longrightarrow>
               error_detail r = ''Your SIM card has been successfully activated''
               \<and> (\<exists>before. snd (att cfg drv k i) =
                     before @
                     [(Attempt k ClickActivate, page_click (activate_button (selectors cfg)),
                       Resolved),
                      (Attempt k WaitSuccess,
                       page_waitForSelector ''text=Your SIM card has been successfully activated''
                         5000,
                       Resolved)])))
       \<and> (\<forall>r. fst (proc cfg drv i n) = Inr r
              \<and> (status r = already_activated \<or> status r = success) \<longrightarrow>
            (\<exists>j<n. \<exists>r0. fst (att cfg drv j i) = Inr r0
               \<and> status r0 = status r
               \<and> error_detail r0 = ''Your SIM card has been successfully activated''
               \<and> r = (case drv (Attempt j ClosePage) of
                        Resolved \<Rightarrow> r0
                      | Rejected m \<Rightarrow> r0\<lparr>error_detail := m\<rparr>)))"
proof -
  have both: "\<exists>ent. (\<forall>j. Attempt j WaitAlready \<notin> fst ` set (ent j)
                  \<and> Attempt j WaitSuccess \<notin> fst ` set (ent j)
                  \<and> Attempt j ClickActivate \<notin> fst ` set (ent j))
              \<and> (\<forall>d j. att cfg d j i = tryBlock (ent j) cfg d j i)
              \<and> (\<forall>j. entry cfg i j = ent j)
              \<and> (\<forall>r. fst (proc cfg drv i n) = Inr r \<longrightarrow>
                    fst (runBody (att cfg) drv i n) = Inr r)"
    using assms
  proof
    assume a: "(att, entry, proc) = (attempt, enterIccid, processIccid)"
    have "(\<forall>j. Attempt j WaitAlready \<notin> fst ` set (enterIccid cfg i j)
                  \<and> Attempt j WaitSuccess \<notin> fst ` set (enterIccid cfg i j)
                  \<and> Attempt j ClickActivate \<notin> fst ` set (enterIccid cfg i j))
              \<and> (\<forall>d j. att cfg d j i = tryBlock (enterIccid cfg i j) cfg d j i)
              \<and> (\<forall>j. entry cfg i j = enterIccid cfg i j)
              \<and> (\<forall>r. fst (proc cfg drv i n) = Inr r \<longrightarrow>
                    fst (runBody (att cfg) drv i n) = Inr r)"
      using a by (auto simp: entry_sites attempt_def fst_processIccid split: option.splits)
    then show ?thesis by blast
  next
    assume a: "(att, entry, proc) = (attempt_srv, enterIccid_srv, processIccid_srv)"
    have "(\<forall>j. Attempt j WaitAlready \<notin> fst ` set (enterIccid_srv cfg i j)
                  \<and> Attempt j WaitSuccess \<notin> fst ` set (enterIccid_srv cfg i j)
                  \<and> Attempt j ClickActivate \<notin> fst ` set (enterIccid_srv cfg i j))
              \<and> (\<forall>d j. att cfg d j i = tryBlock (enterIccid_srv cfg i j) cfg d j i)
              \<and> (\<forall>j. entry cfg i j = enterIccid_srv cfg i j)
              \<and> (\<forall>r. fst (proc cfg drv i n) = Inr r \<longrightarrow>
                    fst (runBody (att cfg) drv i n) = Inr r)"
      using a by (auto simp: entry_srv_sites attempt_srv_def fst_processIccid_srv split: option.splits)
    then show ?thesis by blast
  qed
  then obtain ent where ent:
      "\<And>j. Attempt j WaitAlready \<notin> fst ` set (ent j)"
      "\<And>j. Attempt j WaitSuccess \<notin> fst ` set (ent j)"
      "\<And>j. Attempt j ClickActivate \<notin> fst ` set (ent j)"
    and att: "\<And>d j. att cfg d j i = tryBlock (ent j) cfg d j i"
    and entry: "\<And>j. entry cfg i j = ent j"
    and proc: "\<And>r. fst (proc cfg drv i n) = Inr r \<Longrightarrow> fst (runBody (att cfg) drv i n) = Inr r"
    by blast
  have p1: "(\<exists>r. fst (att cfg drv k i) = Inr r \<and> status r = already_activated) \<longleftrightarrow>
            fst (awaitAll drv (entry cfg i k)) = None \<and> drv (Attempt k WaitAlready) = Resolved"
    unfolding att entry by (rule attempt_already_iff)
  have p2: "(\<exists>r. fst (att cfg drv k i) = Inr r \<and> status r = success) \<longleftrightarrow>
            fst (awaitAll drv (entry cfg i k)) = None
            \<and> drv (Attempt k WaitAlready) \<noteq> Resolved
            \<and> drv (Attempt k WaitIssue) \<noteq> Resolved
            \<and> drv (Attempt k WaitProcessing1) \<noteq> Resolved
            \<and> fst (awaitAll drv (activateNow cfg k)) = None
            \<and> drv (Attempt k WaitSuccess) = Resolved"
    unfolding att entry by (rule attempt_success_iff)
  have p3: "\<And>r j. fst (att cfg drv j i) = Inr r \<Longrightarrow>
            (status r = already_activated \<longleftrightarrow>
               (Attempt j WaitAlready,
                page_waitForSelector ''text=Your SIM card has been successfully activated'' 5000,
                Resolved) \<in> set (snd (att cfg drv j i)))
          \<and> (status r = success \<longleftrightarrow>
               (Attempt j WaitSuccess,
                page_waitForSelector ''text=Your SIM card has been successfully activated'' 5000,
                Resolved) \<in> set (snd (att cfg drv j i)))
          \<and> (status r = already_activated \<longrightarrow>
               error_detail r = ''Your SIM card has been successfully activated''
               \<and> Attempt j ClickActivate \<notin> fst ` set (snd (att cfg drv j i)))
          \<and> (status r = success \<longrightarrow>
               error_detail r = ''Your SIM card has been successfully activated''
               \<and> (\<exists>before. snd (att cfg drv j i) =
                     before @
                     [(Attempt j ClickActivate, page_click (activate_button (selectors cfg)),
                       Resolved),
                      (Attempt j WaitSuccess,
                       page_waitForSelector ''text=Your SIM card has been successfully activated''
                         5000,
                       Resolved)]))"
    unfolding att by (rule tryBlock_activated_text[OF _ ent])
  have p4: "\<exists>j<n. \<exists>r0. fst (att cfg drv j i) = Inr r0
               \<and> status r0 = status r
               \<and> error_detail r0 = ''Your SIM card has been successfully activated''
               \<and> r = (case drv (Attempt j ClosePage) of
                        Resolved \<Rightarrow> r0
                      | Rejected m \<Rightarrow> r0\<lparr>error_detail := m\<rparr>)"
    if ret: "fst (proc cfg drv i n) = Inr r"
      and st: "status r = already_activated \<or> status r = success" for r
  proof -
    have "status r \<noteq> error" using st by auto
    from runBody_classified[OF proc[OF ret] this] obtain j r0 where j: "j < n"
      "fst (att cfg drv j i) = Inr r0"
      "r = (case drv (Attempt j ClosePage) of
              Resolved \<Rightarrow> r0
            | Rejected m \<Rightarrow> r0\<lparr>error_detail := m\<rparr>)"
      by blast
    have s: "status r0 = status r"
      using j(3) by (simp split: resp.splits)
    then have "error_detail r0 = ''Your SIM card has been successfully activated''"
      using p3[OF j(2)] st by auto
    then show ?thesis using j s by blast
  qed
  show ?thesis
    using p1 p2 p3[of k] p4 by blast
qed

text \<open>
  The theorem at a driver that shows the text at once (first file) and at a driver that
  shows it only after the click (server file); in both runs every close resolves and
  \<^verbatim>\<open>processIccid\<close> returns the result of attempt 0.
\<close>

theorem same_text_before_or_after_click_witness:
  "((attempt, enterIccid, processIccid) = (attempt, enterIccid, processIccid)
     \<or> (attempt, enterIccid, processIccid) = (attempt_srv, enterIccid_srv, processIccid_srv))
   \<and> fst (awaitAll (scripted []) (enterIccid exampleConfig ''8985200000000000001'' 0)) = None
   \<and> scripted [] (Attempt 0 WaitAlready) = Resolved
   \<and> (\<exists>r. fst (attempt exampleConfig (scripted []) 0 ''8985200000000000001'') = Inr r
          \<and> status r = already_activated
          \<and> error_detail r = ''Your SIM card has been successfully activated'')
   \<and> fst (processIccid exampleConfig (scripted []) ''8985200000000000001'' 2) =
       Inr \<lparr>iccid = ''8985200000000000001'', status = already_activated,
            error_detail = ''Your SIM card has been successfully activated''\<rparr>
   \<and> (\<exists>j<2. \<exists>r0. fst (attempt exampleConfig (scripted []) j ''8985200000000000001'') = Inr r0
          \<and> status r0 = already_activated
          \<and> error_detail r0 = ''Your SIM card has been successfully activated'')
   \<and> fst (awaitAll (rejecting [WaitAlready, WaitIssue, WaitProcessing1] ''Timeout 5000ms exceeded'')
          (enterIccid_srv exampleConfig ''8985200000000000001'' 0)) = None
   \<and> (\<exists>r. fst (attempt_srv exampleConfig
               (rejecting [WaitAlready, WaitIssue, WaitProcessing1] ''Timeout 5000ms exceeded'') 0
               ''8985200000000000001'') = Inr r
          \<and> status r = success
          \<and> error_detail r = ''Your SIM card has been successfully activated'')"
proof -
  let ?i = "''8985200000000000001''"
  let ?d = "rejecting [WaitAlready, WaitIssue, WaitProcessing1] ''Timeout 5000ms exceeded''"
  have h1: "(attempt, enterIccid, processIccid) = (attempt, enterIccid, processIccid)
     \<or> (attempt, enterIccid, processIccid) = (attempt_srv, enterIccid_srv, processIccid_srv)"
    by simp
  have h2: "(attempt_srv, enterIccid_srv, processIccid_srv) = (attempt, enterIccid, processIccid)
     \<or> (attempt_srv, enterIccid_srv, processIccid_srv) =
       (attempt_srv, enterIccid_srv, processIccid_srv)"
    by simp
  note t1 = same_text_before_or_after_click
    [OF h1, where cfg = exampleConfig and drv = "scripted []" and k = 0 and i = ?i and n = 2]
  note t2 = same_text_before_or_after_click
    [OF h2, where cfg = exampleConfig and drv = ?d and k = 0 and i = ?i and n = 2]
  have e1: "fst (awaitAll (scripted []) (enterIccid exampleConfig ?i 0)) = None"
    by (simp add: enterIccid_def scripted_def)
  have w1: "scripted [] (Attempt 0 WaitAlready) = Resolved"
    by (simp add: scripted_def)
  from t1 e1 w1 obtain r1 where r1: "fst (attempt exampleConfig (scripted []) 0 ?i) = Inr r1"
      "status r1 = already_activated"
    by blast
  from t1 r1 have d1: "error_detail r1 = ''Your SIM card has been successfully activated''"
    by blast
  have p1: "fst (processIccid exampleConfig (scripted []) ?i 2) =
       Inr \<lparr>iccid = ?i, status = already_activated,
            error_detail = ''Your SIM card has been successfully activated''\<rparr>"
    by (simp add: val_defs del: retryLoop.simps(2))
  from t1 have "\<forall>r. fst (processIccid exampleConfig (scripted []) ?i 2) = Inr r
              \<and> (status r = already_activated \<or> status r = success) \<longrightarrow>
            (\<exists>j<2. \<exists>r0. fst (attempt exampleConfig (scripted []) j ?i) = Inr r0
               \<and> status r0 = status r
               \<and> error_detail r0 = ''Your SIM card has been successfully activated''
               \<and> r = (case scripted [] (Attempt j ClosePage) of
                        Resolved \<Rightarrow> r0
                      | Rejected m \<Rightarrow> r0\<lparr>error_detail := m\<rparr>))"
    by blast
  from this[rule_format, of "\<lparr>iccid = ?i, status = already_activated,
            error_detail = ''Your SIM card has been successfully activated''\<rparr>"] p1
  have c1: "\<exists>j<2. \<exists>r0. fst (attempt exampleConfig (scripted []) j ?i) = Inr r0
          \<and> status r0 = already_activated
          \<and> error_detail r0 = ''Your SIM card has been successfully activated''"
    by auto
  have e2: "fst (awaitAll ?d (enterIccid_srv exampleConfig ?i 0)) = None"
    by (simp add: enterIccid_srv_def rejecting_def)
  have w2: "?d (Attempt 0 WaitAlready) \<noteq> Resolved" "?d (Attempt 0 WaitIssue) \<noteq> Resolved"
      "?d (Attempt 0 WaitProcessing1) \<noteq> Resolved" "?d (Attempt 0 WaitSuccess) = Resolved"
      "fst (awaitAll ?d (activateNow exampleConfig 0)) = None"
    by (simp_all add: rejecting_def activateNow_def)
  from t2 e2 w2 obtain r2 where r2: "fst (attempt_srv exampleConfig ?d 0 ?i) = Inr r2"
      "status r2 = success"
    by blast
  from t2 r2 have d2: "error_detail r2 = ''Your SIM card has been successfully activated''"
    by blast
  show ?thesis
    using h1 e1 w1 r1 d1 p1 c1 e2 r2 d2 by blast
qed

section \<open>Exhausted retries\<close>

lemma retryLoop_all_raise:
  assumes "\<forall>j<n. drv (Attempt (k + j) NewPage) = Resolved
                \<and> fst (att drv (k + j) i) = Inl (msg (k + j))
                \<and> drv (Attempt (k + j) ClosePage) = Resolved"
  shows "fst (retryLoop att drv i n k res) =
           (if n = 0 then res else res\<lparr>error_detail := msg (k + n - 1)\<rparr>)"
  using assms
proof (induction n arbitrary: k res)
  case 0
  then show ?case by simp
next
  case (Suc n)
  have here: "drv (Attempt k NewPage) = Resolved" "fst (att drv k i) = Inl (msg k)"
      "drv (Attempt k ClosePage) = Resolved"
    using Suc.prems by (metis add.right_neutral zero_less_Suc)+
  have later: "\<forall>j<n. drv (Attempt (Suc k + j) NewPage) = Resolved
                \<and> fst (att drv (Suc k + j) i) = Inl (msg (Suc k + j))
                \<and> drv (Attempt (Suc k + j) ClosePage) = Resolved"
    using Suc.prems by (metis Suc_less_eq add_Suc_shift)
  have it: "fst (iteration att drv i k res) = Continue (res\<lparr>error_detail := msg k\<rparr>)"
    by (simp add: fst_iteration here)
  show ?case
    by (simp add: fst_retryLoop_Suc it Suc.IH[OF later] del: retryLoop.simps)
qed

text \<open>
  Claim C5 says that \<^verbatim>\<open>processIccid\<close> returns an \<open>error\<close> result, and does not
  raise, whenever every attempt raises. The outer \<^verbatim>\<open>finally\<close> awaits
  \<^verbatim>\<open>browser.close()\<close>: in the run below both attempts fail to load the page and the
  close of the browser rejects, and the promise of \<^verbatim>\<open>processIccid\<close> rejects with
  the message of the close.
\<close>

theorem browser_close_failure_raises:
  "fst (attempt exampleConfig
     (scripted [(Attempt 0 Goto, ''net::ERR_NAME_NOT_RESOLVED''),
                (Attempt 1 Goto, ''net::ERR_NAME_NOT_RESOLVED''),
                (CloseBrowser, ''browser.close: Connection closed'')]) 0 ''8985200000000000001'') =
     Inl ''net::ERR_NAME_NOT_RESOLVED''
   \<and> fst (attempt exampleConfig
     (scripted [(Attempt 0 Goto, ''net::ERR_NAME_NOT_RESOLVED''),
                (Attempt 1 Goto, ''net::ERR_NAME_NOT_RESOLVED''),
                (CloseBrowser, ''browser.close: Connection closed'')]) 1 ''8985200000000000001'') =
     Inl ''net::ERR_NAME_NOT_RESOLVED''
   \<and> fst (processIccid exampleConfig
     (scripted [(Attempt 0 Goto, ''net::ERR_NAME_NOT_RESOLVED''),
                (Attempt 1 Goto, ''net::ERR_NAME_NOT_RESOLVED''),
                (CloseBrowser, ''browser.close: Connection closed'')]) ''8985200000000000001'' 2) =
     Inl ''browser.close: Connection closed''"
  by (simp add: val_defs del: retryLoop.simps(2))

text \<open>
  Claim C5, amended. Let \<^verbatim>\<open>maxRetries\<close> be at least 1 and \<^verbatim>\<open>initBrowser\<close>
  resolve. If in every one of the \<^verbatim>\<open>maxRetries\<close> attempts the page opens, the inner
  \<^verbatim>\<open>try\<close> block raises a failure (with message \<open>msg k\<close> in attempt \<open>k\<close>) and the
  page closes, and if \<^verbatim>\<open>browser.close()\<close> resolves, then \<^verbatim>\<open>processIccid\<close>
  returns the result with status \<open>error\<close> whose detail is the message of the last attempt.
\<close>

theorem retries_exhausted_gives_error:
  assumes "0 < maxRetries"
    and "fst (initBrowser drv) = None"
    and "\<forall>k<maxRetries. drv (Attempt k NewPage) = Resolved
                \<and> fst (attempt cfg drv k i) = Inl (msg k)
                \<and> drv (Attempt k ClosePage) = Resolved"
    and "drv CloseBrowser = Resolved"
  shows "fst (processIccid cfg drv i maxRetries) =
           Inr \<lparr>iccid = i, status = error, error_detail = msg (maxRetries - 1)\<rparr>"
proof -
  have "\<forall>j<maxRetries. drv (Attempt (0 + j) NewPage) = Resolved
                \<and> fst (attempt cfg drv (0 + j) i) = Inl (msg (0 + j))
                \<and> drv (Attempt (0 + j) ClosePage) = Resolved"
    using assms(3) by simp
  from retryLoop_all_raise[of maxRetries drv 0 "attempt cfg" i msg, OF this] assms(1)
  have "fst (retryLoop (attempt cfg) drv i maxRetries 0 \<lparr>iccid = i, status = error, error_detail = []\<rparr>)
          = \<lparr>iccid = i, status = error, error_detail = msg (maxRetries - 1)\<rparr>"
    by simp
  then show ?thesis
    using assms(2,4) by (simp add: fst_processIccid fst_runBody)
qed

text \<open>
  The theorem at a driver for which \<^verbatim>\<open>page.goto\<close> rejects in every attempt.
\<close>

theorem retries_exhausted_gives_error_witness:
  "(0::nat) < 2
   \<and> fst (initBrowser (rejecting [Goto] ''net::ERR_NAME_NOT_RESOLVED'')) = None
   \<and> fst (attempt exampleConfig (rejecting [Goto] ''net::ERR_NAME_NOT_RESOLVED'') 1
            ''8985200000000000001'') = Inl ''net::ERR_NAME_NOT_RESOLVED''
   \<and> rejecting [Goto] ''net::ERR_NAME_NOT_RESOLVED'' CloseBrowser = Resolved
   \<and> fst (processIccid exampleConfig (rejecting [Goto] ''net::ERR_NAME_NOT_RESOLVED'')
            ''8985200000000000001'' 2) =
       Inr \<lparr>iccid = ''8985200000000000001'', status = error,
            error_detail = ''net::ERR_NAME_NOT_RESOLVED''\<rparr>"
proof -
  let ?d = "rejecting [Goto] ''net::ERR_NAME_NOT_RESOLVED''"
  have a: "(0::nat) < 2" by simp
  have b: "fst (initBrowser ?d) = None" by (simp add: initBrowser_def rejecting_def)
  have att: "fst (attempt exampleConfig ?d k ''8985200000000000001'') =
      Inl ''net::ERR_NAME_NOT_RESOLVED''" for k
    by (simp add: attempt_def fst_tryBlock enterIccid_def rejecting_def)
  have c: "\<forall>k<2. ?d (Attempt k NewPage) = Resolved
      \<and> fst (attempt exampleConfig ?d k ''8985200000000000001'') =
          Inl ((\<lambda>k. ''net::ERR_NAME_NOT_RESOLVED'') k)
      \<and> ?d (Attempt k ClosePage) = Resolved"
    using att by (simp add: rejecting_def)
  have d: "?d CloseBrowser = Resolved" by (simp add: rejecting_def)
  from retries_exhausted_gives_error[OF a b c d] a b att[of 1] d show ?thesis by simp
qed

section \<open>A classified result ends the loop\<close>

lemma retryLoop_reach:
  assumes "\<forall>j<a. drv (Attempt (k + j) NewPage) = Resolved
                \<and> (\<exists>e. fst (att drv (k + j) i) = Inl e)
                \<and> drv (Attempt (k + j) ClosePage) = Resolved"
  shows "\<exists>res'. fst (retryLoop att drv i (a + n) k res) = fst (retryLoop att drv i n (k + a) res')"
  using assms
proof (induction a arbitrary: k res)
  case 0
  then show ?case by auto
next
  case (Suc a)
  have here: "drv (Attempt k NewPage) = Resolved" "\<exists>e. fst (att drv k i) = Inl e"
      "drv (Attempt k ClosePage) = Resolved"
    using Suc.prems by (metis add.right_neutral zero_less_Suc)+
  then obtain e where e: "fst (att drv k i) = Inl e" by blast
  have later: "\<forall>j<a. drv (Attempt (Suc k + j) NewPage) = Resolved
                \<and> (\<exists>e. fst (att drv (Suc k + j) i) = Inl e)
                \<and> drv (Attempt (Suc k + j) ClosePage) = Resolved"
    using Suc.prems by (metis Suc_less_eq add_Suc_shift)
  have it: "fst (iteration att drv i k res) = Continue (res\<lparr>error_detail := e\<rparr>)"
    by (simp add: fst_iteration here e)
  from Suc.IH[OF later, of "res\<lparr>error_detail := e\<rparr>"] show ?case
    by (simp add: fst_retryLoop_Suc it del: retryLoop.simps)
qed

text \<open>
  Claim C6 says that the result an attempt classifies is what \<^verbatim>\<open>processIccid\<close>
  returns. The \<^verbatim>\<open>return\<close> passes through two \<^verbatim>\<open>finally\<close> blocks. In the first
  run below the attempt classifies \<open>already_activated\<close> and \<^verbatim>\<open>page.close()\<close> then
  rejects: the outer \<^verbatim>\<open>catch\<close> overwrites \<^verbatim>\<open>error_detail\<close> of the classified
  object, and a different result is returned. In the second run \<^verbatim>\<open>browser.close()\<close>
  rejects, and nothing is returned.
\<close>

theorem close_failure_changes_outcome:
  "fst (attempt exampleConfig (scripted [(Attempt 0 ClosePage, ''page.close: Protocol error'')]) 0
          ''8985200000000000001'') =
     Inr \<lparr>iccid = ''8985200000000000001'', status = already_activated,
          error_detail = ''Your SIM card has been successfully activated''\<rparr>
   \<and> fst (processIccid exampleConfig (scripted [(Attempt 0 ClosePage, ''page.close: Protocol error'')])
          ''8985200000000000001'' 2) =
     Inr \<lparr>iccid = ''8985200000000000001'', status = already_activated,
          error_detail = ''page.close: Protocol error''\<rparr>
   \<and> fst (processIccid exampleConfig (scripted [(CloseBrowser, ''browser.close: Connection closed'')])
          ''8985200000000000001'' 2) =
     Inl ''browser.close: Connection closed''"
  by (simp add: val_defs del: retryLoop.simps(2))

text \<open>
  Claim C6, amended. Let \<^verbatim>\<open>initBrowser\<close> resolve and let attempt \<open>k\<close> be reached:
  \<open>k\<close> is less than \<^verbatim>\<open>maxRetries\<close>, and every earlier attempt opened its page,
  raised a failure and closed its page. If the page of attempt \<open>k\<close> opens and its inner
  \<^verbatim>\<open>try\<close> block returns a result \<open>r\<close> (whatever its status), then no call of any
  later attempt is ever made; and if \<^verbatim>\<open>page.close()\<close> and
  \<^verbatim>\<open>browser.close()\<close> then resolve, \<^verbatim>\<open>processIccid\<close> returns exactly \<open>r\<close>.
\<close>

theorem classified_outcome_ends_retries:
  assumes init: "fst (initBrowser drv) = None"
    and k: "k < maxRetries"
    and earlier: "\<forall>j<k. drv (Attempt j NewPage) = Resolved
                \<and> (\<exists>e. fst (attempt cfg drv j i) = Inl e)
                \<and> drv (Attempt j ClosePage) = Resolved"
    and page: "drv (Attempt k NewPage) = Resolved"
    and cls: "fst (attempt cfg drv k i) = Inr r"
  shows "(\<forall>j st. k < j \<longrightarrow> Attempt j st \<notin> fst ` set (snd (processIccid cfg drv i maxRetries)))
       \<and> (drv (Attempt k ClosePage) = Resolved \<and> drv CloseBrowser = Resolved \<longrightarrow>
            fst (processIccid cfg drv i maxRetries) = Inr r)"
proof -
  let ?res = "\<lparr>iccid = i, status = error, error_detail = []\<rparr>"
  have fin: "\<And>res. \<exists>r'. fst (iteration (attempt cfg) drv i k res) = Finish r'"
    by (simp add: fst_iteration page cls split: resp.splits)
  have loop: "\<forall>e \<in> set (snd (retryLoop (attempt cfg) drv i maxRetries 0 ?res)).
          \<exists>j st. fst e = Attempt j st \<and> j \<le> k"
    by (rule retryLoop_sites_upto[of "attempt cfg" drv i k, OF attempt_pageCalls fin]) simp
  have part1: "Attempt j st \<notin> fst ` set (snd (processIccid cfg drv i maxRetries))" if "k < j" for j st
  proof
    assume "Attempt j st \<in> fst ` set (snd (processIccid cfg drv i maxRetries))"
    then obtain e where e: "e \<in> set (snd (processIccid cfg drv i maxRetries))" "fst e = Attempt j st"
      by force
    then have "e \<in> set (snd (retryLoop (attempt cfg) drv i maxRetries 0 ?res))"
      using init by (auto simp: snd_processIccid initBrowser_None snd_runBody)
    with loop e(2) that show False by force
  qed
  obtain b where b: "maxRetries = k + Suc b"
    using k by (metis less_imp_Suc_add add_Suc_right)
  have "\<forall>j<k. drv (Attempt (0 + j) NewPage) = Resolved
                \<and> (\<exists>e. fst (attempt cfg drv (0 + j) i) = Inl e)
                \<and> drv (Attempt (0 + j) ClosePage) = Resolved"
    using earlier by simp
  from retryLoop_reach[of k drv 0 "attempt cfg" i "Suc b" ?res, OF this]
  obtain res' where res': "fst (retryLoop (attempt cfg) drv i maxRetries 0 ?res) =
      fst (retryLoop (attempt cfg) drv i (Suc b) k res')"
    unfolding b by auto
  have part2: "drv (Attempt k ClosePage) = Resolved \<and> drv CloseBrowser = Resolved \<longrightarrow>
            fst (processIccid cfg drv i maxRetries) = Inr r"
    using init page cls
    by (simp add: fst_processIccid fst_runBody res' fst_retryLoop_Suc fst_iteration
             del: retryLoop.simps)
  show ?thesis using part1 part2 by blast
qed

text \<open>
  The theorem at a driver whose first attempt fails to load the page and whose second
  attempt finds the SIM already activated, with three attempts allowed: the third is
  never started.
\<close>

theorem classified_outcome_ends_retries_witness:
  "fst (initBrowser (scripted [(Attempt 0 Goto, ''net::ERR_CONNECTION_RESET'')])) = None
   \<and> (1::nat) < 3
   \<and> fst (attempt exampleConfig (scripted [(Attempt 0 Goto, ''net::ERR_CONNECTION_RESET'')]) 0
            ''8985200000000000001'') = Inl ''net::ERR_CONNECTION_RESET''
   \<and> fst (attempt exampleConfig (scripted [(Attempt 0 Goto, ''net::ERR_CONNECTION_RESET'')]) 1
            ''8985200000000000001'') =
       Inr \<lparr>iccid = ''8985200000000000001'', status = already_activated,
            error_detail = ''Your SIM card has been successfully activated''\<rparr>
   \<and> fst (processIccid exampleConfig (scripted [(Attempt 0 Goto, ''net::ERR_CONNECTION_RESET'')])
            ''8985200000000000001'' 3) =
       Inr \<lparr>iccid = ''8985200000000000001'', status = already_activated,
            error_detail = ''Your SIM card has been successfully activated''\<rparr>
   \<and> Attempt 2 NewPage \<notin> fst ` set (snd (processIccid exampleConfig
         (scripted [(Attempt 0 Goto, ''net::ERR_CONNECTION_RESET'')]) ''8985200000000000001'' 3))"
proof -
  let ?d = "scripted [(Attempt 0 Goto, ''net::ERR_CONNECTION_RESET'')]"
  have a: "fst (initBrowser ?d) = None" by (simp add: initBrowser_def scripted_def)
  have b: "(1::nat) < 3" by simp
  have a0: "fst (attempt exampleConfig ?d 0 ''8985200000000000001'') =
      Inl ''net::ERR_CONNECTION_RESET''"
    by (simp add: attempt_def fst_tryBlock enterIccid_def scripted_def)
  have c: "\<forall>j<1. ?d (Attempt j NewPage) = Resolved
      \<and> (\<exists>e. fst (attempt exampleConfig ?d j ''8985200000000000001'') = Inl e)
      \<and> ?d (Attempt j ClosePage) = Resolved"
    using a0 by (simp add: scripted_def)
  have d: "?d (Attempt 1 NewPage) = Resolved" by (simp add: scripted_def)
  have e: "fst (attempt exampleConfig ?d 1 ''8985200000000000001'') =
       Inr \<lparr>iccid = ''8985200000000000001'', status = already_activated,
            error_detail = ''Your SIM card has been successfully activated''\<rparr>"
    by (simp add: val_defs)
  have f: "?d (Attempt 1 ClosePage) = Resolved \<and> ?d CloseBrowser = Resolved"
    by (simp add: scripted_def)
  from classified_outcome_ends_retries[OF a b c d e] f a b a0 e show ?thesis by simp
qed

section \<open>Pages, contexts and browsers\<close>

lemma wellScoped_pageCalls:
  assumes "\<forall>e \<in> set t. pageCall k e"
  shows "wellScoped (Some k) n (t @ es) = wellScoped (Some k) n es"
  using assms
proof (induction t)
  case Nil
  then show ?case by simp
next
  case (Cons e t)
  obtain s c r where e: "e = (s, c, r)" by (cases e)
  from Cons.prems obtain st where st: "s = Attempt k st" "st \<noteq> NewPage" "st \<noteq> ClosePage"
    using e by (auto simp: pageCall_def split: site.splits)
  have "wellScoped (Some k) n (e # t @ es) = wellScoped (Some k) n (t @ es)"
    using st by (cases st) (simp_all add: e)
  then show ?case using Cons by simp
qed

lemma wellScoped_iteration:
  assumes "\<forall>e \<in> set (snd (att drv k i)). pageCall k e"
    and "n \<le> k"
  shows "wellScoped None n (snd (iteration att drv i k res) @ es) = wellScoped None (Suc k) es"
  using assms(2) wellScoped_pageCalls[OF assms(1)]
  by (simp add: snd_iteration split: resp.splits)

lemma wellScoped_retryLoop:
  assumes att: "\<And>k. \<forall>e \<in> set (snd (att drv k i)). pageCall k e"
  shows "m \<le> k \<Longrightarrow>
    wellScoped None m (snd (retryLoop att drv i n k res) @ [(CloseBrowser, browser_close, q)])"
proof (induction n arbitrary: k res m)
  case 0
  then show ?case by simp
next
  case (Suc n)
  note it = wellScoped_iteration[of att drv k i m, OF att[of k] Suc.prems]
  show ?case
  proof (cases "fst (iteration att drv i k res)")
    case (Finish r)
    then show ?thesis
      using it by (simp add: snd_retryLoop_Suc del: retryLoop.simps)
  next
    case (Continue r)
    have "wellScoped None (Suc k)
            (snd (retryLoop att drv i n (Suc k) r) @ [(CloseBrowser, browser_close, q)])"
      by (rule Suc.IH) simp
    then show ?thesis
      using Continue it by (simp add: snd_retryLoop_Suc del: retryLoop.simps)
  qed
qed

text \<open>
  Claim C2 says that every attempt, retries included, runs in a session of its own. A
  session, with its cookies and storage, is a browser context in Playwright, and
  \<^verbatim>\<open>processIccid\<close> creates one context before the loop and opens the page of every
  attempt in it. In the run below the first attempt fails to load the page: two pages are
  opened, in one context.
\<close>

theorem retry_reuses_context:
  "pagesOpened (snd (processIccid exampleConfig
      (scripted [(Attempt 0 Goto, ''net::ERR_CONNECTION_RESET'')]) ''8985200000000000001'' 2)) = 2
   \<and> contextsCreated (snd (processIccid exampleConfig
      (scripted [(Attempt 0 Goto, ''net::ERR_CONNECTION_RESET'')]) ''8985200000000000001'' 2)) = 1"
  by (simp add: val_defs trace_defs pagesOpened_def contextsCreated_def del: retryLoop.simps(2))

text \<open>
  Claim C2, amended. One call of \<^verbatim>\<open>processIccid\<close> creates at most one browser
  context, which all its attempts share. When \<^verbatim>\<open>initBrowser\<close> resolves, the calls
  that follow keep the discipline \<open>wellScoped\<close>: every attempt opens a page of its own,
  no page is opened twice or while another is open, every other call of an attempt goes
  to the page that attempt opened, \<^verbatim>\<open>page.close()\<close> is called on every opened page
  before anything else happens (whether the attempt returned a result or raised), and
  \<^verbatim>\<open>browser.close()\<close> is the last call, made with no page open.
\<close>

theorem pages_scoped_one_context:
  "contextsCreated (snd (processIccid cfg drv i maxRetries)) \<le> 1
   \<and> (fst (initBrowser drv) = None \<longrightarrow>
        (\<exists>t. snd (processIccid cfg drv i maxRetries) =
               [(Launch, chromium_launch, Resolved), (NewContext, browser_newContext, Resolved)] @ t
             \<and> wellScoped None 0 t))"
proof -
  let ?res = "\<lparr>iccid = i, status = error, error_detail = []\<rparr>"
  let ?body = "snd (runBody (attempt cfg) drv i maxRetries)"
  have ws: "wellScoped None 0 ?body"
    unfolding snd_runBody
    by (rule wellScoped_retryLoop[of "attempt cfg" drv i, OF attempt_pageCalls]) simp
  have "\<forall>e \<in> set ?body. fst e \<noteq> NewContext"
    using retryLoop_attempt_sites[of "attempt cfg" drv i maxRetries 0 ?res, OF attempt_pageCalls]
    by (auto simp: snd_runBody)
  then have nb: "filter (\<lambda>e. fst e = NewContext \<and> snd (snd e) = Resolved) ?body = []"
    by (simp add: filter_empty_conv)
  have ini: "length (filter (\<lambda>e. fst e = NewContext \<and> snd (snd e) = Resolved)
               (snd (initBrowser drv))) \<le> 1"
    by (simp add: initBrowser_def split: resp.splits)
  have one: "contextsCreated (snd (processIccid cfg drv i maxRetries)) \<le> 1"
    using ini nb by (simp add: contextsCreated_def snd_processIccid split: option.splits)
  have two: "fst (initBrowser drv) = None \<longrightarrow>
        (\<exists>t. snd (processIccid cfg drv i maxRetries) =
               [(Launch, chromium_launch, Resolved), (NewContext, browser_newContext, Resolved)] @ t
             \<and> wellScoped None 0 t)"
    using ws by (simp add: snd_processIccid initBrowser_None)
  show ?thesis using one two by blast
qed

text \<open>
  The theorem at the driver of the run above.
\<close>

theorem pages_scoped_one_context_witness:
  "fst (initBrowser (scripted [(Attempt 0 Goto, ''net::ERR_CONNECTION_RESET'')])) = None
   \<and> contextsCreated (snd (processIccid exampleConfig
        (scripted [(Attempt 0 Goto, ''net::ERR_CONNECTION_RESET'')]) ''8985200000000000001'' 2)) \<le> 1
   \<and> wellScoped None 0 (drop 2 (snd (processIccid exampleConfig
        (scripted [(Attempt 0 Goto, ''net::ERR_CONNECTION_RESET'')]) ''8985200000000000001'' 2)))"
proof -
  let ?d = "scripted [(Attempt 0 Goto, ''net::ERR_CONNECTION_RESET'')]"
  have h: "fst (initBrowser ?d) = None"
    by (simp add: initBrowser_def scripted_def)
  from pages_scoped_one_context[of exampleConfig ?d "''8985200000000000001''" 2] h
  obtain t where t: "snd (processIccid exampleConfig ?d ''8985200000000000001'' 2) =
      [(Launch, chromium_launch, Resolved), (NewContext, browser_newContext, Resolved)] @ t"
      "wellScoped None 0 t"
    and c: "contextsCreated (snd (processIccid exampleConfig ?d ''8985200000000000001'' 2)) \<le> 1"
    by blast
  have "drop 2 (snd (processIccid exampleConfig ?d ''8985200000000000001'' 2)) = t"
    unfolding t(1) by simp
  then show ?thesis using h c t(2) by simp
qed

section \<open>The two files compared\<close>

lemma fst_awaitAll_append:
  "fst (awaitAll drv (xs @ ys)) =
     (case fst (awaitAll drv xs) of Some m \<Rightarrow> Some m | None \<Rightarrow> fst (awaitAll drv ys))"
  by (induction xs) (auto split: resp.splits prod.splits)

lemma entry_srv_same:
  assumes "drv (Attempt k MouseMove) = Resolved" "drv (Attempt k MouseDelay) = Resolved"
  shows "fst (awaitAll drv (enterIccid_srv cfg i k)) = fst (awaitAll drv (enterIccid cfg i k))"
proof -
  have "enterIccid_srv cfg i k =
          take 2 (enterIccid cfg i k) @
          [(Attempt k MouseMove, mouse_move), (Attempt k MouseDelay, page_waitForTimeout)] @
          drop 2 (enterIccid cfg i k)"
    by (simp add: enterIccid_srv_def enterIccid_def)
  moreover have "fst (awaitAll drv
          [(Attempt k MouseMove, mouse_move), (Attempt k MouseDelay, page_waitForTimeout)]) = None"
    using assms by simp
  ultimately have "fst (awaitAll drv (enterIccid_srv cfg i k)) =
      fst (awaitAll drv (take 2 (enterIccid cfg i k) @ drop 2 (enterIccid cfg i k)))"
    by (simp only: fst_awaitAll_append option.case)
  then show ?thesis by simp
qed

lemma attempt_srv_same:
  assumes "drv (Attempt k MouseMove) = Resolved" "drv (Attempt k MouseDelay) = Resolved"
  shows "fst (attempt_srv cfg drv k i) = fst (attempt cfg drv k i)"
  by (simp add: attempt_def attempt_srv_def fst_tryBlock entry_srv_same[OF assms])

lemma retryLoop_same:
  assumes "\<forall>j<n. fst (att1 drv (k + j) i) = fst (att2 drv (k + j) i)"
  shows "fst (retryLoop att1 drv i n k res) = fst (retryLoop att2 drv i n k res)"
  using assms
proof (induction n arbitrary: k res)
  case 0
  then show ?case by simp
next
  case (Suc n)
  have here: "fst (att1 drv k i) = fst (att2 drv k i)"
    using Suc.prems by (metis add.right_neutral zero_less_Suc)
  have later: "\<forall>j<n. fst (att1 drv (Suc k + j) i) = fst (att2 drv (Suc k + j) i)"
    using Suc.prems by (metis Suc_less_eq add_Suc_shift)
  have it: "fst (iteration att1 drv i k res) = fst (iteration att2 drv i k res)"
    unfolding fst_iteration here by (rule refl)
  show ?case
    by (simp only: fst_retryLoop_Suc it Suc.IH[OF later])
qed

text \<open>
  Claim C9 says that the pointer movement and the pauses never change the result. They
  are awaited inside the inner \<^verbatim>\<open>try\<close> block of the server file, so a rejection of
  \<^verbatim>\<open>page.mouse.move\<close> is a failed attempt there, while the first file never makes
  the call: for the driver below the first file returns \<open>already_activated\<close> and the
  server file returns \<open>error\<close>.
\<close>

theorem mouse_failure_changes_outcome:
  "fst (processIccid exampleConfig (rejecting [MouseMove] ''mouse.move: Target crashed'')
          ''8985200000000000001'' 2) =
     Inr \<lparr>iccid = ''8985200000000000001'', status = already_activated,
          error_detail = ''Your SIM card has been successfully activated''\<rparr>
   \<and> fst (processIccid_srv exampleConfig (rejecting [MouseMove] ''mouse.move: Target crashed'')
          ''8985200000000000001'' 2) =
     Inr \<lparr>iccid = ''8985200000000000001'', status = error,
          error_detail = ''mouse.move: Target crashed''\<rparr>"
  by (simp add: val_defs del: retryLoop.simps(2))

text \<open>
  Claim C9, amended. If the calls that only the server file makes resolve (the init script
  in \<^verbatim>\<open>initBrowser\<close>, and in every attempt the pointer movement and the pause after
  it), then for the same configuration, identifier, \<^verbatim>\<open>maxRetries\<close> and driver the two
  versions of \<^verbatim>\<open>processIccid\<close> end the same way: with the same result, or with the
  same rejection.
\<close>

theorem srv_same_result:
  assumes "drv AddInitScript = Resolved"
    and "\<forall>k<maxRetries. drv (Attempt k MouseMove) = Resolved \<and> drv (Attempt k MouseDelay) = Resolved"
  shows "fst (processIccid_srv cfg drv i maxRetries) = fst (processIccid cfg drv i maxRetries)"
proof -
  have ini: "fst (initBrowser_srv drv) = fst (initBrowser drv)"
    using assms(1) by (simp add: initBrowser_srv_def initBrowser_def split: resp.splits)
  have "\<forall>j<maxRetries. fst (attempt_srv cfg drv (0 + j) i) = fst (attempt cfg drv (0 + j) i)"
    using assms(2) by (simp add: attempt_srv_same)
  then have "fst (runBody (attempt_srv cfg) drv i maxRetries) = fst (runBody (attempt cfg) drv i maxRetries)"
    by (simp only: fst_runBody retryLoop_same)
  then show ?thesis
    by (simp only: fst_processIccid fst_processIccid_srv ini)
qed

text \<open>
  The theorem at a driver that shows none of the three texts after Next Step and the
  activated text after the click.
\<close>

theorem srv_same_result_witness:
  "rejecting [WaitAlready, WaitIssue, WaitProcessing1] ''Timeout 5000ms exceeded'' AddInitScript =
     Resolved
   \<and> fst (processIccid_srv exampleConfig
        (rejecting [WaitAlready, WaitIssue, WaitProcessing1] ''Timeout 5000ms exceeded'')
        ''8985200000000000001'' 2) =
     fst (processIccid exampleConfig
        (rejecting [WaitAlready, WaitIssue, WaitProcessing1] ''Timeout 5000ms exceeded'')
        ''8985200000000000001'' 2)
   \<and> fst (processIccid exampleConfig
        (rejecting [WaitAlready, WaitIssue, WaitProcessing1] ''Timeout 5000ms exceeded'')
        ''8985200000000000001'' 2) =
     Inr \<lparr>iccid = ''8985200000000000001'', status = success,
          error_detail = ''Your SIM card has been successfully activated''\<rparr>"
proof -
  let ?d = "rejecting [WaitAlready, WaitIssue, WaitProcessing1] ''Timeout 5000ms exceeded''"
  have a: "?d AddInitScript = Resolved" by (simp add: rejecting_def)
  have b: "\<forall>k<2. ?d (Attempt k MouseMove) = Resolved \<and> ?d (Attempt k MouseDelay) = Resolved"
    by (simp add: rejecting_def)
  have v: "fst (processIccid exampleConfig ?d ''8985200000000000001'' 2) =
     Inr \<lparr>iccid = ''8985200000000000001'', status = success,
          error_detail = ''Your SIM card has been successfully activated''\<rparr>"
    by (simp add: val_defs del: retryLoop.simps(2))
  from srv_same_result[OF a b, of exampleConfig "''8985200000000000001''"] a v
  show ?thesis by simp
qed

section \<open>Runs of the scheduler\<close>

text \<open>
  The pool keeps its number of chains, every identifier is put on exactly one chain, and a
  step of the event loop changes one chain only.
\<close>

lemma sum_list_map_update:
  fixes g :: "'a \<Rightarrow> 'b::comm_monoid_add"
  shows "j < length xs \<Longrightarrow> sum_list (map g (xs[j := y])) + g (xs ! j) = sum_list (map g xs) + g y"
proof (induction xs arbitrary: j)
  case Nil
  then show ?case by simp
next
  case (Cons x xs)
  show ?case
  proof (cases j)
    case 0
    then show ?thesis by (simp add: ac_simps)
  next
    case (Suc j')
    then have "j' < length xs" using Cons.prems by simp
    from Cons.IH[OF this] show ?thesis using Suc by (simp add: ac_simps)
  qed
qed

lemma mset_unfinished_sum:
  "mset (concat (map unfinished xs)) = sum_list (map (\<lambda>x. mset (unfinished x)) xs)"
  by (induction xs) simp_all

lemma unfinished_update:
  assumes "j < length xs"
  shows "mset (concat (map unfinished (xs[j := y]))) + mset (unfinished (xs ! j)) =
         mset (concat (map unfinished xs)) + mset (unfinished y)"
  unfolding mset_unfinished_sum using sum_list_map_update[OF assms] .

lemma stepsLeft_update:
  assumes "j < length xs"
  shows "sum_list (map stepsLeft (xs[j := y])) + stepsLeft (xs ! j) =
         sum_list (map stepsLeft xs) + stepsLeft y"
  using sum_list_map_update[OF assms] .

lemma addTask_keeps:
  "addTask pool i = Inr pool' \<Longrightarrow>
     length pool' = length pool \<and> mset (concat pool') = mset (concat pool) + {#i#}"
  by (cases pool) auto

lemma schedule_keeps:
  "schedule pool is = Inr pool' \<Longrightarrow>
     length pool' = length pool \<and> mset (concat pool') = mset (concat pool) + mset is"
proof (induction "is" arbitrary: pool)
  case Nil
  then show ?case by simp
next
  case (Cons i rest)
  then obtain p1 where p1: "addTask pool i = Inr p1" and rest: "schedule p1 rest = Inr pool'"
    by (auto split: sum.splits)
  from addTask_keeps[OF p1] Cons.IH[OF rest] show ?case by simp
qed

lemma schedule_nonempty:
  "pool \<noteq> [] \<Longrightarrow> \<exists>pool'. schedule pool is = Inr pool'"
proof (induction "is" arbitrary: pool)
  case Nil
  then show ?case by simp
next
  case (Cons i rest)
  then obtain w ws where "pool = w # ws" by (cases pool) auto
  then have "addTask pool i = Inr (ws @ [w @ [i]])" by simp
  moreover have "\<exists>pool'. schedule (ws @ [w @ [i]]) rest = Inr pool'"
    by (rule Cons.IH) simp
  ultimately show ?case by simp
qed

lemma start_slots_le: "length (slots (start K iccids)) \<le> K"
proof (cases "schedule (replicate K []) iccids")
  case (Inl m)
  then show ?thesis by (simp add: start_def)
next
  case (Inr pool)
  from schedule_keeps[OF this] show ?thesis using Inr by (simp add: start_def)
qed

lemma start_ok:
  assumes "0 < K"
  shows "crashed (start K iccids) = None \<and> length (slots (start K iccids)) = K
       \<and> results (start K iccids) = []
       \<and> mset (concat (map unfinished (slots (start K iccids)))) = mset iccids
       \<and> (\<forall>b. Broken b \<notin> set (slots (start K iccids)))"
proof -
  have "replicate K ([]::string list) \<noteq> []" using assms by simp
  from schedule_nonempty[OF this] obtain pool where
    pool: "schedule (replicate K []) iccids = Inr pool" by blast
  have un: "map unfinished (map Waiting pool) = pool"
    by (induction pool) simp_all
  from schedule_keeps[OF pool] show ?thesis
    using pool un by (auto simp: start_def)
qed


lemma tick_length: "length (slots (tick ini body w j s)) = length (slots s)"
  by (auto simp: tick_def split: slot.splits list.splits option.splits sum.splits)

lemma tick_crashed: "crashed s \<noteq> None \<Longrightarrow> tick ini body w j s = s"
  by (simp add: tick_def)

lemma exec_Nil: "exec ini body w [] s = s"
  by (simp add: exec_def)

lemma exec_Cons: "exec ini body w (j # sched) s = exec ini body w sched (tick ini body w j s)"
  by (simp add: exec_def)

lemma exec_snoc: "exec ini body w (sched @ [j]) s = tick ini body w j (exec ini body w sched s)"
  by (simp add: exec_def)

lemma exec_length: "length (slots (exec ini body w sched s)) = length (slots s)"
  by (induction sched arbitrary: s) (simp_all add: exec_Cons tick_length, simp add: exec_def)


subsection \<open>The browsers that the chains hold open\<close>

text \<open>
  One call of \<^verbatim>\<open>processIccid\<close> never has more than one browser open, and has none
  open when it returns: the only resolved launch is the first call, and the only call that
  closes a browser is the last. A chain runs its calls of \<^verbatim>\<open>processIccid\<close> one after
  the other, so it has at most one browser open after any number of its calls.
\<close>

lemma attempt_srv_pageCalls: "\<forall>e \<in> set (snd (attempt_srv cfg drv k i)). pageCall k e"
  unfolding attempt_srv_def
  by (rule tryBlock_pageCalls,
      rule awaitAll_pageCalls[where ?c0.0 = page_title and ?r0.0 = Resolved])
     (simp add: enterIccid_srv_def pageCall_def)

lemma browsersOpen_append: "browsersOpen (t @ u) = browsersOpen t + browsersOpen u"
  by (simp add: browsersOpen_def)

lemma browsersOpen_Cons: "browsersOpen (e # t) = browserDelta e + browsersOpen t"
  by (simp add: browsersOpen_def)

lemma atMostOneOpen_start: "atMostOneOpen b t \<Longrightarrow> 0 \<le> b \<and> b \<le> 1"
  by (cases t) simp_all

lemma atMostOneOpen_append:
  "atMostOneOpen b (t @ u) \<longleftrightarrow> atMostOneOpen b t \<and> atMostOneOpen (b + browsersOpen t) u"
proof (induction t arbitrary: b)
  case Nil
  then show ?case using atMostOneOpen_start[of b u] by (auto simp: browsersOpen_def)
next
  case (Cons e t)
  then show ?case by (auto simp: browsersOpen_Cons add.assoc)
qed

lemma atMostOneOpen_take:
  "atMostOneOpen b t \<Longrightarrow> 0 \<le> b + browsersOpen (take n t) \<and> b + browsersOpen (take n t) \<le> 1"
proof (induction t arbitrary: b n)
  case Nil
  then show ?case by (simp add: browsersOpen_def)
next
  case (Cons e t)
  show ?case
  proof (cases n)
    case 0
    then show ?thesis using Cons.prems by (simp add: browsersOpen_def)
  next
    case (Suc n')
    from Cons.prems have "atMostOneOpen (b + browserDelta e) t" by simp
    from Cons.IH[OF this, of n'] show ?thesis
      by (simp add: Suc browsersOpen_Cons add.assoc)
  qed
qed

lemma neutral_calls:
  assumes "\<forall>e \<in> set t. browserDelta e = 0"
  shows "browsersOpen t = 0" and "atMostOneOpen b t \<longleftrightarrow> 0 \<le> b \<and> b \<le> 1"
  using assms by (induction t arbitrary: b) (auto simp: browsersOpen_def)

lemma loop_calls_neutral:
  assumes att: "\<And>k. \<forall>e \<in> set (snd (att drv k i)). pageCall k e"
  shows "\<forall>e \<in> set (snd (retryLoop att drv i n k res)). browserDelta e = 0"
proof
  fix e assume "e \<in> set (snd (retryLoop att drv i n k res))"
  with retryLoop_attempt_sites[of att drv i n k res, OF att]
  obtain j st where "fst e = Attempt j st" by blast
  then show "browserDelta e = 0" by (simp add: browserDelta_def)
qed

lemma runBody_browser:
  assumes att: "\<And>k. \<forall>e \<in> set (snd (att drv k i)). pageCall k e"
  shows "atMostOneOpen 1 (snd (runBody att drv i n))"
    and "fst (runBody att drv i n) = Inr r \<Longrightarrow> browsersOpen (snd (runBody att drv i n)) = - 1"
proof -
  let ?loop = "snd (retryLoop att drv i n 0 \<lparr>iccid = i, status = error, error_detail = []\<rparr>)"
  note nl = neutral_calls[OF loop_calls_neutral[of att drv i n 0, OF att]]
  show "atMostOneOpen 1 (snd (runBody att drv i n))"
    by (simp add: snd_runBody atMostOneOpen_append nl browserDelta_def)
  assume "fst (runBody att drv i n) = Inr r"
  then have "drv CloseBrowser = Resolved"
    by (simp add: fst_runBody split: resp.splits)
  then show "browsersOpen (snd (runBody att drv i n)) = - 1"
    by (simp add: snd_runBody browsersOpen_append nl) (simp add: browsersOpen_def browserDelta_def)
qed

lemma processIccid_browser:
  "atMostOneOpen 0 (snd (processIccid cfg drv i n))"
  "fst (processIccid cfg drv i n) = Inr r \<Longrightarrow> browsersOpen (snd (processIccid cfg drv i n)) = 0"
proof -
  note rb = runBody_browser[of "attempt cfg" drv i, OF attempt_pageCalls]
  show "atMostOneOpen 0 (snd (processIccid cfg drv i n))"
  proof (cases "fst (initBrowser drv)")
    case None
    then show ?thesis
      using rb(1)[of n]
      by (simp add: snd_processIccid initBrowser_None atMostOneOpen_append browserDelta_def
          browsersOpen_def)
  next
    case (Some m)
    then show ?thesis
      by (simp add: snd_processIccid) (simp add: initBrowser_def browserDelta_def split: resp.splits)
  qed
  assume ret: "fst (processIccid cfg drv i n) = Inr r"
  then have ini: "fst (initBrowser drv) = None" and body: "fst (runBody (attempt cfg) drv i n) = Inr r"
    by (simp_all add: fst_processIccid split: option.splits)
  from rb(2)[OF body] show "browsersOpen (snd (processIccid cfg drv i n)) = 0"
    by (simp add: snd_processIccid ini initBrowser_None browsersOpen_append)
       (simp add: browsersOpen_def browserDelta_def)
qed

lemma initBrowser_srv_None:
  "fst (initBrowser_srv drv) = None \<Longrightarrow>
     snd (initBrowser_srv drv) =
       [(Launch, chromium_launch, Resolved), (NewContext, browser_newContext, Resolved),
        (AddInitScript, context_addInitScript, Resolved)]"
  by (simp add: initBrowser_srv_def split: resp.splits)

lemma snd_processIccid_srv:
  "snd (processIccid_srv cfg drv i n) =
     (case fst (initBrowser_srv drv) of
        Some m \<Rightarrow> snd (initBrowser_srv drv)
      | None \<Rightarrow> snd (initBrowser_srv drv) @ snd (runBody (attempt_srv cfg) drv i n))"
  by (cases "initBrowser_srv drv"; cases "runBody (attempt_srv cfg) drv i n")
     (simp add: processIccid_srv_def split: option.splits)

lemma processIccid_srv_browser:
  "atMostOneOpen 0 (snd (processIccid_srv cfg drv i n))"
  "fst (processIccid_srv cfg drv i n) = Inr r \<Longrightarrow>
     browsersOpen (snd (processIccid_srv cfg drv i n)) = 0"
proof -
  note rb = runBody_browser[of "attempt_srv cfg" drv i, OF attempt_srv_pageCalls]
  show "atMostOneOpen 0 (snd (processIccid_srv cfg drv i n))"
  proof (cases "fst (initBrowser_srv drv)")
    case None
    then show ?thesis
      using rb(1)[of n]
      by (simp add: snd_processIccid_srv initBrowser_srv_None atMostOneOpen_append
          browserDelta_def browsersOpen_def)
  next
    case (Some m)
    then show ?thesis
      by (simp add: snd_processIccid_srv)
         (simp add: initBrowser_srv_def browserDelta_def split: resp.splits)
  qed
  assume ret: "fst (processIccid_srv cfg drv i n) = Inr r"
  then have ini: "fst (initBrowser_srv drv) = None"
    and body: "fst (runBody (attempt_srv cfg) drv i n) = Inr r"
    by (simp_all add: fst_processIccid_srv split: option.splits)
  from rb(2)[OF body] show "browsersOpen (snd (processIccid_srv cfg drv i n)) = 0"
    by (simp add: snd_processIccid_srv ini initBrowser_srv_None browsersOpen_append)
       (simp add: browsersOpen_def browserDelta_def)
qed

lemma chain_browser:
  assumes one: "\<And>drv i. atMostOneOpen 0 (snd (proc drv i))"
    and ret: "\<And>drv i r. fst (proc drv i) = Inr r \<Longrightarrow> browsersOpen (snd (proc drv i)) = 0"
  shows "atMostOneOpen 0 (chainEvents proc w q)"
proof (induction q)
  case Nil
  then show ?case by simp
next
  case (Cons i q)
  obtain x t where p: "proc (w i) i = (x, t)" by (cases "proc (w i) i")
  have t: "atMostOneOpen 0 t" using one[of "w i" i] p by simp
  show ?case
  proof (cases x)
    case (Inl m)
    then show ?thesis using t p by simp
  next
    case (Inr r)
    then have "browsersOpen t = 0" using ret[of "w i" i r] p by simp
    then show ?thesis using t p Inr Cons.IH by (simp add: atMostOneOpen_append)
  qed
qed

lemma sum_list_bounded:
  fixes f :: "'a \<Rightarrow> int"
  assumes "\<forall>x \<in> set xs. 0 \<le> f x \<and> f x \<le> 1"
  shows "0 \<le> sum_list (map f xs) \<and> sum_list (map f xs) \<le> int (length xs)"
  using assms by (induction xs) auto

lemma chains_length: "length (chains maxWorkers iccids) \<le> maxWorkers"
  by (simp add: chains_def start_slots_le)

lemma sessionsOpenAt_bounded:
  assumes one: "\<And>drv i. atMostOneOpen 0 (snd (proc drv i))"
    and ret: "\<And>drv i r. fst (proc drv i) = Inr r \<Longrightarrow> browsersOpen (snd (proc drv i)) = 0"
  shows "0 \<le> sessionsOpenAt proc w maxWorkers iccids made
       \<and> sessionsOpenAt proc w maxWorkers iccids made \<le> int maxWorkers"
proof -
  let ?f = "\<lambda>(q, n). browsersOpen (take n (chainEvents proc w q))"
  let ?xs = "zip (chains maxWorkers iccids) made"
  have "\<forall>x \<in> set ?xs. 0 \<le> ?f x \<and> ?f x \<le> 1"
  proof
    fix x assume "x \<in> set ?xs"
    obtain q n where x: "x = (q, n)" by (cases x)
    from atMostOneOpen_take[OF chain_browser[of proc w q, OF one ret], where n = n]
    show "0 \<le> ?f x \<and> ?f x \<le> 1" by (simp add: x)
  qed
  from sum_list_bounded[OF this]
  have "0 \<le> sum_list (map ?f ?xs)" "sum_list (map ?f ?xs) \<le> int (length ?xs)" by simp_all
  moreover have "length ?xs \<le> maxWorkers"
    using chains_length[of maxWorkers iccids] by simp
  ultimately show ?thesis by (simp add: sessionsOpenAt_def)
qed

lemma tick_toCome_other:
  "c \<noteq> j \<Longrightarrow> toCome proc body w (slots (tick ini body w j s) ! c) = toCome proc body w (slots s ! c)"
  by (auto simp: tick_def split: slot.splits list.splits option.splits sum.splits)

lemma tick_toCome_here:
  assumes comp: "\<And>drv i. proc drv i =
      (case ini drv of
         (Some m, t) \<Rightarrow> (Inl m, t)
       | (None, t) \<Rightarrow> (case body drv i of (x, t') \<Rightarrow> (x, t @ t')))"
  shows "toCome proc body w (slots s ! j) =
           tickCalls ini body w j s @ toCome proc body w (slots (tick ini body w j s) ! j)"
proof (cases "crashed s \<noteq> None \<or> length (slots s) \<le> j")
  case True
  then show ?thesis by (auto simp: tick_def tickCalls_def)
next
  case False
  then have ok: "crashed s = None" "j < length (slots s)" by auto
  show ?thesis
  proof (cases "slots s ! j")
    case (Waiting q)
    show ?thesis
    proof (cases q)
      case Nil
      then show ?thesis using ok Waiting by (simp add: tick_def tickCalls_def)
    next
      case (Cons i q')
      obtain x t where ini: "ini (w i) = (x, t)" by (cases "ini (w i)")
      obtain y t' where body: "body (w i) i = (y, t')" by (cases "body (w i) i")
      show ?thesis
      proof (cases x)
        case None
        then show ?thesis
          using ok Waiting Cons ini body
          by (cases y) (simp_all add: tick_def tickCalls_def comp)
      next
        case (Some m)
        then show ?thesis
          using ok Waiting Cons ini by (simp add: tick_def tickCalls_def comp)
      qed
    qed
  next
    case (Running i q)
    obtain y t' where body: "body (w i) i = (y, t')" by (cases "body (w i) i")
    show ?thesis
      using ok Running body by (cases y) (simp_all add: tick_def tickCalls_def)
  next
    case (Broken b)
    then show ?thesis using ok by (simp add: tick_def tickCalls_def)
  qed
qed

lemma callsMade_toCome:
  assumes comp: "\<And>drv i. proc drv i =
      (case ini drv of
         (Some m, t) \<Rightarrow> (Inl m, t)
       | (None, t) \<Rightarrow> (case body drv i of (x, t') \<Rightarrow> (x, t @ t')))"
  shows "\<exists>rest. toCome proc body w (slots s ! c) = callsMade ini body w sched s c @ rest"
proof (induction sched arbitrary: s)
  case Nil
  then show ?case by simp
next
  case (Cons j sched)
  from Cons.IH[of "tick ini body w j s"] obtain rest where
    rest: "toCome proc body w (slots (tick ini body w j s) ! c) =
             callsMade ini body w sched (tick ini body w j s) c @ rest"
    by blast
  show ?case
  proof (cases "j = c")
    case True
    have "toCome proc body w (slots s ! c) =
        tickCalls ini body w c s @ toCome proc body w (slots (tick ini body w c s) ! c)"
      by (rule tick_toCome_here[OF comp])
    then have "toCome proc body w (slots s ! c) =
        callsMade ini body w (j # sched) s c @ rest"
      using rest True by simp
    then show ?thesis by blast
  next
    case False
    then have "toCome proc body w (slots (tick ini body w j s) ! c) =
        toCome proc body w (slots s ! c)"
      by (simp add: tick_toCome_other)
    then have "toCome proc body w (slots s ! c) =
        callsMade ini body w (j # sched) s c @ rest"
      using rest False by simp
    then show ?thesis by blast
  qed
qed

lemma start_slot_Waiting:
  assumes "c < length (slots (start maxWorkers iccids))"
  shows "\<exists>q. slots (start maxWorkers iccids) ! c = Waiting q"
  using assms by (cases "schedule (replicate maxWorkers []) iccids") (simp_all add: start_def)

lemma sessionsOpenAfter_bounded:
  assumes comp: "\<And>drv i. proc drv i =
      (case ini drv of
         (Some m, t) \<Rightarrow> (Inl m, t)
       | (None, t) \<Rightarrow> (case body drv i of (x, t') \<Rightarrow> (x, t @ t')))"
    and one: "\<And>drv i. atMostOneOpen 0 (snd (proc drv i))"
    and ret: "\<And>drv i r. fst (proc drv i) = Inr r \<Longrightarrow> browsersOpen (snd (proc drv i)) = 0"
  shows "0 \<le> sessionsOpenAfter ini body w sched (start maxWorkers iccids)
       \<and> sessionsOpenAfter ini body w sched (start maxWorkers iccids) \<le> int maxWorkers"
proof -
  let ?s = "start maxWorkers iccids"
  let ?f = "\<lambda>c. browsersOpen (callsMade ini body w sched ?s c)"
  have "\<forall>c \<in> set [0..<length (slots ?s)]. 0 \<le> ?f c \<and> ?f c \<le> 1"
  proof
    fix c assume "c \<in> set [0..<length (slots ?s)]"
    then have c: "c < length (slots ?s)" by simp
    from start_slot_Waiting[OF c] obtain q where q: "slots ?s ! c = Waiting q" by blast
    from callsMade_toCome[where proc = proc and ini = ini and body = body and w = w
        and s = ?s and c = c and sched = sched, OF comp] q obtain rest where
      "chainEvents proc w q = callsMade ini body w sched ?s c @ rest"
      by auto
    then have "callsMade ini body w sched ?s c =
        take (length (callsMade ini body w sched ?s c)) (chainEvents proc w q)"
      by simp
    with atMostOneOpen_take[OF chain_browser[of proc w q, OF one ret],
        where n = "length (callsMade ini body w sched ?s c)"]
    show "0 \<le> ?f c \<and> ?f c \<le> 1" by simp
  qed
  from sum_list_bounded[OF this]
  have "0 \<le> sum_list (map ?f [0..<length (slots ?s)])"
    "sum_list (map ?f [0..<length (slots ?s)]) \<le> int (length (slots ?s))"
    by simp_all
  moreover have "length (slots ?s) \<le> maxWorkers" by (rule start_slots_le)
  ultimately show ?thesis by (simp add: sessionsOpenAfter_def)
qed

lemma processIccid_parts:
  "processIccid cfg drv i 2 =
     (case initBrowser drv of
        (Some m, t) \<Rightarrow> (Inl m, t)
      | (None, t) \<Rightarrow> (case runBody (attempt cfg) drv i 2 of (x, t') \<Rightarrow> (x, t @ t')))"
  by (simp add: processIccid_def)

lemma processIccid_srv_parts:
  "processIccid_srv cfg drv i 2 =
     (case initBrowser_srv drv of
        (Some m, t) \<Rightarrow> (Inl m, t)
      | (None, t) \<Rightarrow> (case runBody (attempt_srv cfg) drv i 2 of (x, t') \<Rightarrow> (x, t @ t')))"
  by (simp add: processIccid_srv_def)

text \<open>
  Claim C7. For every list of identifiers, every number \<^verbatim>\<open>maxWorkers\<close> of chains and
  every behaviour of the driver, in both files: after any steps \<open>sched\<close> of a run of
  \<^verbatim>\<open>main\<close>, the number of browsers open, counted from the resolved
  \<^verbatim>\<open>chromium.launch()\<close> and \<^verbatim>\<open>browser.close()\<close> calls that the chains have made so
  far, is at least 0 and at most \<^verbatim>\<open>maxWorkers\<close>. The same holds at every instant
  between two steps, that is for every way \<open>made\<close> of cutting the calls of the chains
  into those made and those to come; and there are at most \<^verbatim>\<open>maxWorkers\<close> chains. A
  browser that a rejected task leaves open is counted too.
\<close>

theorem open_sessions_never_exceed_workers:
  "0 \<le> openSessions_main cfg w maxWorkers iccids sched
   \<and> openSessions_main cfg w maxWorkers iccids sched \<le> int maxWorkers
   \<and> 0 \<le> openSessions_main_srv cfg w maxWorkers iccids sched
   \<and> openSessions_main_srv cfg w maxWorkers iccids sched \<le> int maxWorkers
   \<and> 0 \<le> openSessions cfg w maxWorkers iccids made
   \<and> openSessions cfg w maxWorkers iccids made \<le> int maxWorkers
   \<and> 0 \<le> openSessions_srv cfg w maxWorkers iccids made
   \<and> openSessions_srv cfg w maxWorkers iccids made \<le> int maxWorkers
   \<and> length (chains maxWorkers iccids) \<le> maxWorkers"
  unfolding openSessions_def openSessions_srv_def openSessions_main_def openSessions_main_srv_def
  using sessionsOpenAt_bounded[of "\<lambda>drv i. processIccid cfg drv i 2" w maxWorkers iccids made,
      OF processIccid_browser]
    sessionsOpenAt_bounded[of "\<lambda>drv i. processIccid_srv cfg drv i 2" w maxWorkers iccids made,
      OF processIccid_srv_browser]
    sessionsOpenAfter_bounded[where proc = "\<lambda>drv i. processIccid cfg drv i 2"
      and ini = initBrowser and body = "\<lambda>drv i. runBody (attempt cfg) drv i 2" and w = w
      and sched = sched and maxWorkers = maxWorkers and iccids = iccids,
      OF processIccid_parts processIccid_browser]
    sessionsOpenAfter_bounded[where proc = "\<lambda>drv i. processIccid_srv cfg drv i 2"
      and ini = initBrowser_srv and body = "\<lambda>drv i. runBody (attempt_srv cfg) drv i 2" and w = w
      and sched = sched and maxWorkers = maxWorkers and iccids = iccids,
      OF processIccid_srv_parts processIccid_srv_browser]
    chains_length[of maxWorkers iccids]
  by simp

text \<open>The bound is reached: with two chains and two identifiers, once both chains have
  started their task two browsers are open.\<close>

lemma two_browsers_open:
  "openSessions_main exampleConfig (\<lambda>i. scripted []) 2
     [''8985200000000000001'', ''8985200000000000002''] [0, 1] = 2"
proof -
  have st: "start 2 [''8985200000000000001'', ''8985200000000000002''] =
      \<lparr>slots = [Waiting [''8985200000000000001''], Waiting [''8985200000000000002'']],
       results = [], crashed = None\<rparr>"
    by (simp add: start_def numeral_2_eq_2)
  have ini: "initBrowser (scripted []) =
      (None, [(Launch, chromium_launch, Resolved), (NewContext, browser_newContext, Resolved)])"
    by (simp add: initBrowser_def scripted_def)
  show ?thesis
    unfolding openSessions_main_def st
    by (simp add: sessionsOpenAfter_def tickCalls_def tick_def ini browsersOpen_def browserDelta_def
        upt_rec numeral_2_eq_2)
qed

subsection \<open>The identifiers a run accounts for\<close>

lemma tick_accounts:
  assumes body: "\<And>drv i r. fst (body drv i) = Inr r \<Longrightarrow> iccid r = i"
    and ok: "crashed (tick ini body w j s) = None"
  shows "mset (map iccid (results (tick ini body w j s))) +
         mset (concat (map unfinished (slots (tick ini body w j s)))) =
         mset (map iccid (results s)) + mset (concat (map unfinished (slots s)))"
proof (cases "crashed s \<noteq> None \<or> length (slots s) \<le> j")
  case True
  then show ?thesis by (simp add: tick_def)
next
  case False
  then have j: "j < length (slots s)" and c: "crashed s = None" by auto
  show ?thesis
  proof (cases "slots s ! j")
    case (Waiting q)
    show ?thesis
    proof (cases q)
      case Nil
      then show ?thesis using Waiting j c by (simp add: tick_def)
    next
      case (Cons i q')
      show ?thesis
      proof (cases "fst (ini (w i))")
        case None
        have t: "tick ini body w j s = s\<lparr>slots := (slots s)[j := Running i q']\<rparr>"
          using Waiting Cons None j c by (simp add: tick_def)
        from unfinished_update[OF j, of "Running i q'"] show ?thesis
          using Waiting Cons by (simp add: t)
      next
        case (Some m)
        then have "crashed (tick ini body w j s) = Some m"
          using Waiting Cons j c by (simp add: tick_def)
        then show ?thesis using ok by simp
      qed
    qed
  next
    case (Running i q)
    show ?thesis
    proof (cases "fst (body (w i) i)")
      case (Inl m)
      then have "crashed (tick ini body w j s) = Some m"
        using Running j c by (simp add: tick_def)
      then show ?thesis using ok by simp
    next
      case (Inr r)
      have t: "tick ini body w j s =
                 s\<lparr>slots := (slots s)[j := Waiting q], results := results s @ [r]\<rparr>"
        using Running Inr j c by (simp add: tick_def)
      from unfinished_update[OF j, of "Waiting q"] body[OF Inr] show ?thesis
        using Running by (simp add: t)
    qed
  next
    case (Broken b)
    then show ?thesis using j c by (simp add: tick_def)
  qed
qed


lemma idle_unfinished: "list_all idle xs \<Longrightarrow> concat (map unfinished xs) = []"
proof (induction xs)
  case Nil
  then show ?case by simp
next
  case (Cons x xs)
  then show ?case by (cases x) simp_all
qed




lemma unfinished_member:
  assumes "j < length xs" and "i \<in> set (unfinished (xs ! j))"
  shows "i \<in># mset (concat (map unfinished xs))"
  using assms by (auto simp: in_set_conv_nth intro!: bexI[of _ "xs ! j"])

lemma tick_healthy:
  assumes body: "\<And>drv i r. fst (body drv i) = Inr r \<Longrightarrow> iccid r = i"
    and good: "\<forall>i \<in> set iccids. fst (ini (w i)) = None \<and> (\<exists>r. fst (body (w i) i) = Inr r)"
    and inv: "crashed s = None"
      "mset (map iccid (results s)) + mset (concat (map unfinished (slots s))) = mset iccids"
      "\<forall>b. Broken b \<notin> set (slots s)"
  shows "crashed (tick ini body w j s) = None
       \<and> mset (map iccid (results (tick ini body w j s))) +
           mset (concat (map unfinished (slots (tick ini body w j s)))) = mset iccids
       \<and> (\<forall>b. Broken b \<notin> set (slots (tick ini body w j s)))"
proof (cases "j < length (slots s)")
  case False
  then show ?thesis using inv by (simp add: tick_def)
next
  case j: True
  have mem: "i \<in> set iccids" if "i \<in> set (unfinished (slots s ! j))" for i
  proof -
    from unfinished_member[OF j that] have "i \<in># mset iccids"
      using inv(2) by (metis union_iff)
    then show ?thesis by simp
  qed
  have c: "crashed (tick ini body w j s) = None
         \<and> (\<forall>b. Broken b \<notin> set (slots (tick ini body w j s)))"
  proof (cases "slots s ! j")
    case (Waiting q)
    show ?thesis
    proof (cases q)
      case Nil
      then show ?thesis using Waiting j inv by (simp add: tick_def)
    next
      case (Cons i q')
      then have "fst (ini (w i)) = None" using mem[of i] Waiting good by simp
      then have "tick ini body w j s = s\<lparr>slots := (slots s)[j := Running i q']\<rparr>"
        using Waiting Cons j inv(1) by (simp add: tick_def)
      then show ?thesis using inv(1,3) by (auto dest!: set_update_subset_insert[THEN subsetD])
    qed
  next
    case (Running i q)
    then obtain r where r: "fst (body (w i) i) = Inr r" using mem[of i] good by auto
    then have "tick ini body w j s =
                 s\<lparr>slots := (slots s)[j := Waiting q], results := results s @ [r]\<rparr>"
      using Running j inv(1) by (simp add: tick_def)
    then show ?thesis using inv(1,3) by (auto dest!: set_update_subset_insert[THEN subsetD])
  next
    case (Broken b)
    then show ?thesis using inv(3) j by (metis nth_mem)
  qed
  from tick_accounts[of body ini w j s, OF body] c inv(2) show ?thesis by simp
qed

lemma exec_healthy:
  assumes body: "\<And>drv i r. fst (body drv i) = Inr r \<Longrightarrow> iccid r = i"
    and good: "\<forall>i \<in> set iccids. fst (ini (w i)) = None \<and> (\<exists>r. fst (body (w i) i) = Inr r)"
    and inv: "crashed s = None"
      "mset (map iccid (results s)) + mset (concat (map unfinished (slots s))) = mset iccids"
      "\<forall>b. Broken b \<notin> set (slots s)"
  shows "crashed (exec ini body w sched s) = None
       \<and> mset (map iccid (results (exec ini body w sched s))) +
           mset (concat (map unfinished (slots (exec ini body w sched s)))) = mset iccids
       \<and> (\<forall>b. Broken b \<notin> set (slots (exec ini body w sched s)))"
proof (induction sched rule: rev_induct)
  case Nil
  then show ?case using inv by (simp add: exec_def)
next
  case (snoc j sched)
  from tick_healthy[of body iccids ini w "exec ini body w sched s" j, OF body good] snoc
  show ?case by (simp add: exec_snoc)
qed

lemma not_idle_slot:
  "\<not> list_all idle xs \<Longrightarrow> \<exists>j<length xs. \<not> idle (xs ! j)"
  by (auto simp: list_all_iff in_set_conv_nth)

lemma tick_progress:
  assumes good: "\<forall>i \<in> set iccids. fst (ini (w i)) = None \<and> (\<exists>r. fst (body (w i) i) = Inr r)"
    and inv: "crashed s = None"
      "mset (map iccid (results s)) + mset (concat (map unfinished (slots s))) = mset iccids"
      "\<forall>b. Broken b \<notin> set (slots s)"
    and busy: "\<not> list_all idle (slots s)"
  shows "\<exists>j<length (slots s). pendingWork (tick ini body w j s) < pendingWork s"
proof -
  from not_idle_slot[OF busy] obtain j where j: "j < length (slots s)" "\<not> idle (slots s ! j)"
    by blast
  have mem: "i \<in> set iccids" if "i \<in> set (unfinished (slots s ! j))" for i
  proof -
    from unfinished_member[OF j(1) that] have "i \<in># mset iccids"
      using inv(2) by (metis union_iff)
    then show ?thesis by simp
  qed
  have "pendingWork (tick ini body w j s) < pendingWork s"
  proof (cases "slots s ! j")
    case (Waiting q)
    then obtain i q' where q: "q = i # q'" using j(2) by (cases q) auto
    then have "fst (ini (w i)) = None" using mem[of i] Waiting good by simp
    then have t: "tick ini body w j s = s\<lparr>slots := (slots s)[j := Running i q']\<rparr>"
      using Waiting q j inv(1) by (simp add: tick_def)
    from stepsLeft_update[OF j(1), of "Running i q'"] show ?thesis
      using Waiting q by (simp add: pendingWork_def t)
  next
    case (Running i q)
    then obtain r where r: "fst (body (w i) i) = Inr r" using mem[of i] good by auto
    then have t: "tick ini body w j s =
                 s\<lparr>slots := (slots s)[j := Waiting q], results := results s @ [r]\<rparr>"
      using Running j inv(1) by (simp add: tick_def)
    from stepsLeft_update[OF j(1), of "Waiting q"] show ?thesis
      using Running by (simp add: pendingWork_def t)
  next
    case (Broken b)
    then show ?thesis using inv(3) j by (metis nth_mem)
  qed
  then show ?thesis using j(1) by blast
qed

text \<open>
  Claim C1 says that every scheduled identifier gets a result whatever fails, a failure to
  open the session included, and that a failing identifier never stops the others.
  \<^verbatim>\<open>initBrowser\<close> is awaited outside the \<^verbatim>\<open>try\<close> of \<^verbatim>\<open>processIccid\<close>. In
  the run below, with the three chains of the first file, the browser cannot be launched
  for the first identifier: its task rejects, \<^verbatim>\<open>main\<close> rejects, and no step of any
  chain changes the state afterwards. No identifier has a result, and the fourth
  identifier, queued on the same chain, is never started. The same happens when
  \<^verbatim>\<open>browser.close()\<close> rejects at the end of the first task: the result it was about
  to return is never pushed.
\<close>

theorem launch_failure_drops_identifiers:
  "slots (start 3 exampleIccids) =
     [Waiting [''8985200000000000002''], Waiting [''8985200000000000003''],
      Waiting [''8985200000000000001'', ''8985200000000000004'']]
   \<and> results (main exampleConfig (launchFailsFor ''8985200000000000001'') 3 exampleIccids [2]) = []
   \<and> crashed (main exampleConfig (launchFailsFor ''8985200000000000001'') 3 exampleIccids [2]) =
       Some ''browserType.launch: Failed to launch chromium''
   \<and> main exampleConfig (launchFailsFor ''8985200000000000001'') 3 exampleIccids
        [2, 0, 1, 2, 0, 1, 2] =
      main exampleConfig (launchFailsFor ''8985200000000000001'') 3 exampleIccids [2]
   \<and> results (main exampleConfig
        (\<lambda>i. scripted [(CloseBrowser, ''browser.close: Connection closed'')]) 3 exampleIccids
        [2, 2]) = []
   \<and> crashed (main exampleConfig
        (\<lambda>i. scripted [(CloseBrowser, ''browser.close: Connection closed'')]) 3 exampleIccids
        [2, 2]) = Some ''browser.close: Connection closed''"
proof -
  let ?body = "\<lambda>drv i. runBody (attempt exampleConfig) drv i 2"
  let ?w = "\<lambda>i::string. scripted [(CloseBrowser, ''browser.close: Connection closed'')]"
  have st: "start 3 exampleIccids =
     \<lparr>slots = [Waiting [''8985200000000000002''], Waiting [''8985200000000000003''],
               Waiting [''8985200000000000001'', ''8985200000000000004'']],
      results = [], crashed = None\<rparr>"
    by (simp add: start_def exampleIccids_def numeral_3_eq_3)
  have t: "tick initBrowser ?body (launchFailsFor ''8985200000000000001'') 2
             (start 3 exampleIccids) =
     \<lparr>slots = [Waiting [''8985200000000000002''], Waiting [''8985200000000000003''],
               Broken False],
      results = [], crashed = Some ''browserType.launch: Failed to launch chromium''\<rparr>"
    by (simp add: st tick_def launchFailsFor_def initBrowser_def scripted_def)
  have ini: "fst (initBrowser (?w i)) = None" for i
    by (simp add: initBrowser_def scripted_def)
  have body: "fst (runBody (attempt exampleConfig) (?w i) i 2) =
      Inl ''browser.close: Connection closed''" for i
    by (simp add: fst_runBody scripted_def)
  have u: "main exampleConfig ?w 3 exampleIccids [2, 2] =
     \<lparr>slots = [Waiting [''8985200000000000002''], Waiting [''8985200000000000003''],
               Broken True],
      results = [], crashed = Some ''browser.close: Connection closed''\<rparr>"
    unfolding main_def st by (simp add: exec_Cons exec_Nil tick_def ini body)
  have a: "results (main exampleConfig (launchFailsFor ''8985200000000000001'') 3 exampleIccids [2]) = []
   \<and> crashed (main exampleConfig (launchFailsFor ''8985200000000000001'') 3 exampleIccids [2]) =
       Some ''browserType.launch: Failed to launch chromium''
   \<and> main exampleConfig (launchFailsFor ''8985200000000000001'') 3 exampleIccids
        [2, 0, 1, 2, 0, 1, 2] =
      main exampleConfig (launchFailsFor ''8985200000000000001'') 3 exampleIccids [2]"
    by (simp add: main_def exec_Cons exec_Nil t tick_crashed)
  show ?thesis
    using a by (simp add: st u)
qed

text \<open>
  Claim C1, amended. Let there be at least one chain, and let \<^verbatim>\<open>initBrowser\<close> and
  \<^verbatim>\<open>browser.close()\<close> resolve for every identifier; any other call, the opening of
  a page included, may fail in any way. Then, whatever the order in which the chains
  step: \<^verbatim>\<open>main\<close> never rejects; no identifier ever has more results than it has
  places in the list; as long as some chain is not finished, some chain can take a step
  that reduces the work left, so no failure stops the others; and once every chain is
  finished the results hold exactly one result for each scheduled identifier.
\<close>

theorem one_outcome_per_identifier:
  assumes K: "0 < maxWorkers"
    and good: "\<forall>i \<in> set iccids. fst (initBrowser (w i)) = None \<and> w i CloseBrowser = Resolved"
  shows "crashed (main cfg w maxWorkers iccids sched) = None
       \<and> mset (map iccid (results (main cfg w maxWorkers iccids sched))) \<subseteq># mset iccids
       \<and> (list_all idle (slots (main cfg w maxWorkers iccids sched)) \<longrightarrow>
            mset (map iccid (results (main cfg w maxWorkers iccids sched))) = mset iccids)
       \<and> (\<not> list_all idle (slots (main cfg w maxWorkers iccids sched)) \<longrightarrow>
            (\<exists>j<maxWorkers. pendingWork (main cfg w maxWorkers iccids (sched @ [j]))
                              < pendingWork (main cfg w maxWorkers iccids sched)))"
proof -
  let ?body = "\<lambda>drv i. runBody (attempt cfg) drv i 2"
  let ?s = "main cfg w maxWorkers iccids sched"
  have body: "\<And>drv i r. fst (?body drv i) = Inr r \<Longrightarrow> iccid r = i"
    by (rule body_iccid(1))
  have good': "\<forall>i \<in> set iccids. fst (initBrowser (w i)) = None \<and> (\<exists>r. fst (?body (w i) i) = Inr r)"
    using good by (simp add: fst_runBody)
  note st = start_ok[OF K, of iccids]
  have inv: "crashed ?s = None"
      "mset (map iccid (results ?s)) + mset (concat (map unfinished (slots ?s))) = mset iccids"
      "\<forall>b. Broken b \<notin> set (slots ?s)"
    using exec_healthy[of ?body iccids initBrowser w "start maxWorkers iccids" sched,
        OF body good'] st
    by (simp_all add: main_def)
  have len: "length (slots ?s) = maxWorkers"
    using st by (simp add: main_def exec_length)
  have sub: "mset (map iccid (results ?s)) \<subseteq># mset iccids"
    using inv(2) by (metis mset_subset_eq_add_left)
  have fin: "list_all idle (slots ?s) \<longrightarrow> mset (map iccid (results ?s)) = mset iccids"
    using inv(2) by (auto dest: idle_unfinished)
  have step: "main cfg w maxWorkers iccids (sched @ [j]) = tick initBrowser ?body w j ?s" for j
    by (simp add: main_def exec_snoc)
  have prog: "\<not> list_all idle (slots ?s) \<longrightarrow>
      (\<exists>j<maxWorkers. pendingWork (main cfg w maxWorkers iccids (sched @ [j])) < pendingWork ?s)"
    using tick_progress[of iccids initBrowser w ?body ?s, OF good' inv] len
    by (simp add: step)
  show ?thesis using inv(1) sub fin prog by blast
qed

text \<open>
  The theorem at a run of three identifiers on two chains, in which the first page load of
  every identifier fails.
\<close>

theorem one_outcome_per_identifier_witness:
  "(0::nat) < 2
   \<and> fst (initBrowser (scripted [(Attempt 0 Goto, ''net::ERR_CONNECTION_RESET'')])) = None
   \<and> crashed (main exampleConfig (\<lambda>i. scripted [(Attempt 0 Goto, ''net::ERR_CONNECTION_RESET'')]) 2
        [''8985200000000000001'', ''8985200000000000002'', ''8985200000000000003'']
        [0, 1, 1, 0, 1, 1]) = None
   \<and> list_all idle (slots (main exampleConfig
        (\<lambda>i. scripted [(Attempt 0 Goto, ''net::ERR_CONNECTION_RESET'')]) 2
        [''8985200000000000001'', ''8985200000000000002'', ''8985200000000000003'']
        [0, 1, 1, 0, 1, 1]))
   \<and> mset (map iccid (results (main exampleConfig
        (\<lambda>i. scripted [(Attempt 0 Goto, ''net::ERR_CONNECTION_RESET'')]) 2
        [''8985200000000000001'', ''8985200000000000002'', ''8985200000000000003'']
        [0, 1, 1, 0, 1, 1]))) =
      mset [''8985200000000000001'', ''8985200000000000002'', ''8985200000000000003'']"
proof -
  let ?w = "\<lambda>i::string. scripted [(Attempt 0 Goto, ''net::ERR_CONNECTION_RESET'')]"
  let ?L = "[''8985200000000000001'', ''8985200000000000002'', ''8985200000000000003'']"
  have K: "(0::nat) < 2" by simp
  have good: "\<forall>i \<in> set ?L. fst (initBrowser (?w i)) = None \<and> ?w i CloseBrowser = Resolved"
    by (simp add: initBrowser_def scripted_def)
  note inst = one_outcome_per_identifier[OF K good, of exampleConfig]
  have body: "fst (runBody (attempt exampleConfig) (?w i) i 2) =
      Inr \<lparr>iccid = i, status = already_activated,
           error_detail = ''Your SIM card has been successfully activated''\<rparr>" for i
    by (simp add: val_defs del: retryLoop.simps(2))
  have ini: "fst (initBrowser (?w i)) = None" for i
    by (simp add: initBrowser_def scripted_def)
  have st: "start 2 ?L =
     \<lparr>slots = [Waiting [''8985200000000000002''],
               Waiting [''8985200000000000001'', ''8985200000000000003'']],
      results = [], crashed = None\<rparr>"
    by (simp add: start_def numeral_2_eq_2)
  have run: "main exampleConfig ?w 2 ?L [0, 1, 1, 0, 1, 1] =
     \<lparr>slots = [Waiting [], Waiting []],
      results = [\<lparr>iccid = ''8985200000000000001'', status = already_activated,
           error_detail = ''Your SIM card has been successfully activated''\<rparr>,
         \<lparr>iccid = ''8985200000000000002'', status = already_activated,
           error_detail = ''Your SIM card has been successfully activated''\<rparr>,
         \<lparr>iccid = ''8985200000000000003'', status = already_activated,
           error_detail = ''Your SIM card has been successfully activated''\<rparr>],
      crashed = None\<rparr>"
    unfolding main_def st by (simp add: exec_Cons exec_Nil tick_def ini body)
  have idle: "list_all idle (slots (main exampleConfig ?w 2 ?L [0, 1, 1, 0, 1, 1]))"
    unfolding run by simp
  from inst[of "[0, 1, 1, 0, 1, 1]"] idle
  have "mset (map iccid (results (main exampleConfig ?w 2 ?L [0, 1, 1, 0, 1, 1]))) = mset ?L"
    and "crashed (main exampleConfig ?w 2 ?L [0, 1, 1, 0, 1, 1]) = None"
    by blast+
  then show ?thesis
    using ini idle by simp
qed

end
